theory Spec2Isabelle
  imports Complex_Main "HOL-Library.Sublist"
begin

section \<open>aCOSMIC sample.py: conventions of the embedding\<close>

text \<open>
  The module works on numpy arrays of floating-point numbers. In this development an
  array is a list of reals and the arithmetic is exact: \<open>x ** a\<close> is \<open>x powr a\<close>,
  \<open>np.log10 x\<close> is \<open>log 10 x\<close> for positive \<open>x\<close>. Where numpy leaves the reals
  (a division by zero gives nan or inf, \<open>log10\<close> of a non-positive number gives -inf
  or nan) the model says so explicitly instead of using the value HOL picks.

  Every call of \<open>np.random\<close> is an input: a sampler takes, as an argument named like
  the variable the source assigns, the array (or number) that the generator returned.

  A Python function that reaches its end without \<open>return\<close> returns \<open>None\<close>; the
  samplers therefore return \<open>error + 'a option\<close>, where \<open>Inl\<close> is a raised exception
  and \<open>Inr None\<close> is the value \<open>None\<close>.
\<close>

datatype error =
  ValueError
  | IndexError
  | FloatingPointError

type_synonym 'a py = "error + 'a"

definition bind :: "'a py \<Rightarrow> ('a \<Rightarrow> 'b py) \<Rightarrow> 'b py" where
  "bind m f = (case m of Inl e \<Rightarrow> Inl e | Inr x \<Rightarrow> f x)"

text \<open>The module constants that the modelled functions read.\<close>

definition G :: real where "G = 6.67384 * 10 powr (-11)"
definition Rsun :: real where "Rsun = 6.955 * 10 powr 8"
definition Msun :: real where "Msun = 1.9891 * 10 powr 30"
definition sec_in_day :: real where "sec_in_day = 86400"

section \<open>class Sample\<close>

subsection \<open>sample_primary\<close>

text \<open>
  \<open>a_0\<close> (for kroupa93) and \<open>mSamp\<close> (for salpeter55) are the generator's arrays; their
  length (\<open>size\<close>, \<open>size*50\<close> or \<open>size*500\<close>) is chosen by the caller of the model.
  The three index sets \<open>lowIdx\<close>, \<open>midIdx\<close>, \<open>highIdx\<close> are computed from the
  draws before any of them is overwritten, so the update is a map over the draws.
\<close>

definition low_cutoff :: real where "low_cutoff = 0.740074"
definition high_cutoff :: real where "high_cutoff = 0.908422"

definition kroupa93_mass :: "real \<Rightarrow> real" where
  "kroupa93_mass a =
     (if a \<le> low_cutoff then (0.1 powr (- 3 / 10) - a / 0.968533) powr (- 10 / 3)
      else if a < high_cutoff
        then (0.5 powr (- 6 / 5) - (a - low_cutoff) / 0.129758) powr (- 5 / 6)
      else (1 - (a - high_cutoff) / 0.0915941) powr (- 10 / 17))"

definition mass_cut :: "real \<Rightarrow> real list \<Rightarrow> real list" where
  "mass_cut kstar1_final a_0 =
     (if kstar1_final > 13 then filter (\<lambda>m. m > 15) a_0
      else if kstar1_final > 12 then filter (\<lambda>m. m > 8) a_0
      else a_0)"

definition sample_primary ::
  "real \<Rightarrow> string \<Rightarrow> real list \<Rightarrow> (real list \<times> real) option py" where
  "sample_primary kstar1_final model draws =
     (if model = ''kroupa93'' then
        (let a_0 = map kroupa93_mass draws;
             total_sampled_mass = sum_list a_0
         in Inr (Some (mass_cut kstar1_final a_0, total_sampled_mass)))
      else if model = ''salpeter55'' then
        (let a_0 = map (\<lambda>m. m * (100 - 0.1) + 0.1) draws;
             total_sampled_mass = sum_list a_0
         in Inr (Some (mass_cut kstar1_final a_0, total_sampled_mass)))
      else Inr None)"

subsection \<open>sample_secondary\<close>

text \<open>
  \<open>a_0 = np.random.uniform(0.001, 1, primary_mass.size)\<close>; the product of two arrays of
  the same length is taken element by element.
\<close>

definition sample_secondary :: "real list \<Rightarrow> real list \<Rightarrow> real list" where
  "sample_secondary primary_mass a_0 = map (\<lambda>(m, a). m * a) (zip primary_mass a_0)"

subsection \<open>binary_select\<close>

text \<open>
  \<open>np.log10\<close> of zero is -inf, which compares below every draw; of a negative number
  it is nan, which compares false both ways. The two comparisons of the source are
  therefore written with the sign of the mass made explicit.
\<close>

definition binary_fraction :: "real \<Rightarrow> real" where
  "binary_fraction m = 1 / 2 + 1 / 4 * log 10 m"

definition fraction_gt :: "real \<Rightarrow> real \<Rightarrow> bool" where
  "fraction_gt m c = (0 < m \<and> binary_fraction m > c)"

definition fraction_lt :: "real \<Rightarrow> real \<Rightarrow> bool" where
  "fraction_lt m c = (m = 0 \<or> (0 < m \<and> binary_fraction m < c))"

definition np_where :: "(nat \<Rightarrow> bool) \<Rightarrow> nat \<Rightarrow> nat list" where
  "np_where P n = filter P [0..<n]"

definition binary_select ::
  "real list \<Rightarrow> string \<Rightarrow> real list \<Rightarrow> (real list \<times> real list) option py" where
  "binary_select primary_mass model binary_choose =
     (if model = ''vanHaaften'' then
        (let n = length primary_mass;
             binaryIdx = np_where (\<lambda>i. fraction_gt (primary_mass ! i) (binary_choose ! i)) n;
             singleIdx = np_where (\<lambda>i. fraction_lt (primary_mass ! i) (binary_choose ! i)) n
         in Inr (Some (map (\<lambda>i. primary_mass ! i) binaryIdx,
                       map (\<lambda>i. primary_mass ! i) singleIdx)))
      else Inr None)"

subsection \<open>sample_porb\<close>

definition han_separation :: "real \<Rightarrow> real" where
  "han_separation a =
     (if a \<le> 0.0583333 then (a / 0.00368058) powr (5 / 6)
      else exp (a / 0.07 + ln 10))"

definition kepler_period :: "real \<Rightarrow> real \<Rightarrow> real \<Rightarrow> real" where
  "kepler_period mass1 mass2 a =
     (4 * pi\<^sup>2 / (G * (mass1 + mass2) * Msun) * (a powr 3)) powr 0.5"

definition sample_porb ::
  "real list \<Rightarrow> real list \<Rightarrow> string \<Rightarrow> real list \<Rightarrow> real list option py" where
  "sample_porb mass1 mass2 model draws =
     (if model = ''Han'' then
        (let a_0 = map (\<lambda>a. han_separation a * Rsun) draws
         in Inr (Some (map (\<lambda>(m1, m2, a). kepler_period m1 m2 a)
                           (zip mass1 (zip mass2 a_0)))))
      else if model = ''log_normal'' then
        Inr (Some (map (\<lambda>p. p * sec_in_day) draws))
      else Inr None)"

subsection \<open>sample_ecc\<close>

definition sample_ecc :: "string \<Rightarrow> real list \<Rightarrow> real list option py" where
  "sample_ecc model draws =
     (if model = ''thermal'' then Inr (Some (map (\<lambda>a. a powr 0.5) draws))
      else if model = ''uniform'' then Inr (Some draws)
      else Inr None)"

subsection \<open>sample_SFH\<close>

definition sample_SFH :: "string \<Rightarrow> real list \<Rightarrow> real list option py" where
  "sample_SFH model draws =
     (if model = ''const'' then Inr (Some draws)
      else if model = ''burst'' then Inr (Some (map (\<lambda>t. 10000 - t) draws))
      else Inr None)"


section \<open>numpy and scipy functions used by class MultiDimSample\<close>

text \<open>
  These are library functions, modelled from their documented behaviour. An array of
  unsuitable shape makes them raise \<open>ValueError\<close>. \<open>FloatingPointError\<close> marks an
  operation whose result is not a real number (a quotient whose divisor is zero, the
  logarithm of a non-positive number): numpy raises this error when asked to, and
  otherwise warns and goes on with nan or inf; the model stops at that point.
\<close>

definition np_divide :: "real \<Rightarrow> real \<Rightarrow> real py" where
  "np_divide a b = (if b = 0 then Inl FloatingPointError else Inr (a / b))"

definition np_log10 :: "real \<Rightarrow> real py" where
  "np_log10 x = (if x \<le> 0 then Inl FloatingPointError else Inr (log 10 x))"

definition np_max :: "real list \<Rightarrow> real py" where
  "np_max xs = (if xs = [] then Inl ValueError else Inr (Max (set xs)))"

definition np_min :: "real list \<Rightarrow> real py" where
  "np_min xs = (if xs = [] then Inl ValueError else Inr (Min (set xs)))"

fun cumsum_from :: "real \<Rightarrow> real list \<Rightarrow> real list" where
  "cumsum_from acc [] = []"
| "cumsum_from acc (x # xs) = (acc + x) # cumsum_from (acc + x) xs"

definition cumsum :: "real list \<Rightarrow> real list" where
  "cumsum xs = cumsum_from 0 xs"

definition linspace :: "real \<Rightarrow> real \<Rightarrow> nat \<Rightarrow> real list" where
  "linspace a b n = map (\<lambda>i. a + real i * ((b - a) / real (n - 1))) [0..<n]"

definition logspace :: "real \<Rightarrow> real \<Rightarrow> nat \<Rightarrow> real list" where
  "logspace a b n = map (\<lambda>e. 10 powr e) (linspace a b n)"

text \<open>
  \<open>np.interp x xp fp\<close> for increasing \<open>xp\<close>: the value of \<open>fp\<close> at the ends outside
  the range of \<open>xp\<close>; inside, with \<open>j\<close> the last index whose \<open>xp\<close> is at most \<open>x\<close>,
  the value \<open>fp[j]\<close> when \<open>x\<close> is \<open>xp[j]\<close> and the point on the line through
  \<open>(xp[j], fp[j])\<close> and \<open>(xp[j+1], fp[j+1])\<close> otherwise.
\<close>

definition interp_index :: "real \<Rightarrow> real list \<Rightarrow> nat" where
  "interp_index x xp = length (takeWhile (\<lambda>v. v \<le> x) xp) - 1"

definition np_interp :: "real \<Rightarrow> real list \<Rightarrow> real list \<Rightarrow> real py" where
  "np_interp x xp fp =
     (if xp = [] \<or> length fp \<noteq> length xp then Inl ValueError
      else if x > last xp then Inr (last fp)
      else if x < hd xp then Inr (hd fp)
      else (let j = interp_index x xp in
            if j = length xp - 1 \<or> xp ! j = x then Inr (fp ! j)
            else Inr ((fp ! (j + 1) - fp ! j) / (xp ! (j + 1) - xp ! j) * (x - xp ! j)
                      + fp ! j)))"

definition np_dot :: "real list \<Rightarrow> real list \<Rightarrow> real py" where
  "np_dot a b =
     (if length a \<noteq> length b then Inl ValueError
      else Inr (sum_list (map (\<lambda>(u, v). u * v) (zip a b))))"

text \<open>
  \<open>scipy.integrate.newton_cotes(rn)[0]\<close>: for nodes one apart the weights come from
  scipy's table (written out here up to four intervals, all that windows of five points
  ask for); otherwise the nodes must run from 0 to N and the weights are computed by
  inverting a Vandermonde matrix. That computation is not modelled: \<open>general\<close> stands
  for the array scipy returns whenever the table above does not apply.
\<close>

definition builtincoeffs :: "nat \<Rightarrow> real list option" where
  "builtincoeffs N =
     (if N = 1 then Some [1 / 2, 1 / 2]
      else if N = 2 then Some [1 / 3, 4 / 3, 1 / 3]
      else if N = 3 then Some [3 / 8, 9 / 8, 9 / 8, 3 / 8]
      else if N = 4 then Some [14 / 45, 64 / 45, 24 / 45, 64 / 45, 14 / 45]
      else None)"

definition np_diff :: "real list \<Rightarrow> real list" where
  "np_diff xs = map (\<lambda>i. xs ! (i + 1) - xs ! i) [0..<length xs - 1]"

definition scipy_newton_cotes :: "(real list \<Rightarrow> real list) \<Rightarrow> real list \<Rightarrow> real list py" where
  "scipy_newton_cotes general rn =
     (let N = length rn - 1 in
      if (\<forall>d \<in> set (np_diff rn). d = 1) \<and> builtincoeffs N \<noteq> None
        then Inr (the (builtincoeffs N))
      else if rn = [] then Inl IndexError
      else if hd rn \<noteq> 0 \<or> last rn \<noteq> real N then Inl ValueError
      else Inr (general rn))"

text \<open>
  A stand-in for \<open>general\<close> where a concrete function is needed: the weights of the
  composite trapezoid rule, which like every Newton-Cotes rule has one weight for each
  node and weights that add up to the number of intervals.
\<close>

definition trapezoid_weights :: "real list \<Rightarrow> real list" where
  "trapezoid_weights rn = 1 / 2 # replicate (length rn - 2) 1 @ [1 / 2]"

section \<open>class MultiDimSample\<close>

subsection \<open>idl_tabulate\<close>

text \<open>
  The inner function \<open>newton_cotes\<close> integrates one window; \<open>idl_tabulate\<close> adds the
  windows \<open>x[idx:idx+p]\<close> for \<open>idx\<close> in \<open>range(0, len(x), p - 1)\<close>. A step of zero
  (\<open>p = 1\<close>) makes \<open>range\<close> raise, and for \<open>p = 0\<close> the step is negative and the loop
  is empty.
\<close>

definition slice :: "'a list \<Rightarrow> nat \<Rightarrow> nat \<Rightarrow> 'a list" where
  "slice xs i j = take (j - i) (drop i xs)"

definition newton_cotes ::
  "(real list \<Rightarrow> real list) \<Rightarrow> real list \<Rightarrow> real list \<Rightarrow> real py" where
  "newton_cotes general x f =
     (if length x < 2 then Inr 0
      else if last x - hd x = 0 then Inl FloatingPointError
      else (let rn = map (\<lambda>v. real (length x - 1) * (v - hd x) / (last x - hd x)) x in
            bind (scipy_newton_cotes general rn) (\<lambda>weights.
            bind (np_dot weights f) (\<lambda>d.
            Inr ((last x - hd x) / real (length x - 1) * d)))))"

definition range_step :: "nat \<Rightarrow> nat \<Rightarrow> nat list" where
  "range_step n step = map (\<lambda>k. k * step) [0..<(n + step - 1) div step]"

fun idl_tabulate_loop ::
  "(real list \<Rightarrow> real list) \<Rightarrow> real list \<Rightarrow> real list \<Rightarrow> nat \<Rightarrow> nat list \<Rightarrow> real \<Rightarrow> real py"
where
  "idl_tabulate_loop general x f p [] ret = Inr ret"
| "idl_tabulate_loop general x f p (idx # idxs) ret =
     bind (newton_cotes general (slice x idx (idx + p)) (slice f idx (idx + p)))
       (\<lambda>v. idl_tabulate_loop general x f p idxs (ret + v))"

definition idl_tabulate ::
  "(real list \<Rightarrow> real list) \<Rightarrow> real list \<Rightarrow> real list \<Rightarrow> nat \<Rightarrow> real py" where
  "idl_tabulate general x f p =
     (if p = 1 then Inl ValueError
      else if p = 0 then Inr 0
      else idl_tabulate_loop general x f p (range_step (length x) (p - 1)) 0)"

subsection \<open>The normalisation of a tabulated density\<close>

text \<open>
  The grid builder and the sampler turn a density \<open>f\<close> on an axis into a cumulative
  table with the same two statements each time:
  \<^verbatim>\<open>cum = np.cumsum(f) - f[0]\<close> and \<^verbatim>\<open>cum = cum / np.max(cum)\<close>.
  There is no test of the maximum before the division.
\<close>

definition cum_offset :: "real list \<Rightarrow> real list py" where
  "cum_offset f = (if f = [] then Inl IndexError else Inr (map (\<lambda>v. v - hd f) (cumsum f)))"

definition divide_by_max :: "real list \<Rightarrow> real list py" where
  "divide_by_max cum =
     bind (np_max cum) (\<lambda>m.
       if m = 0 then Inl FloatingPointError else Inr (map (\<lambda>v. v / m) cum))"

definition normalise_cdf :: "real list \<Rightarrow> real list py" where
  "normalise_cdf f = bind (cum_offset f) divide_by_max"


subsection \<open>The axes of the grids\<close>

text \<open>
  \<open>populate_pdfs\<close> binds the four axes; \<open>initial_sample\<close> reads them by the same
  names. The period axis is bound under the name \<open>logP\<close> and read under the name
  \<open>logPv\<close>, and the mass axis is built with \<open>num1M1\<close> points where \<open>numM1\<close> is
  bound: each pair of names is one object here.
\<close>

definition numM1 :: nat where "numM1 = 101"
definition numlogP :: nat where "numlogP = 158"
definition numq :: nat where "numq = 91"
definition nume :: nat where "nume = 100"

definition M1v :: "real list" where
  "M1v = logspace (log 10 0.8) (log 10 40) numM1"

definition logP :: "real list" where
  "logP = linspace 0.15 8.0 numlogP"

definition logPv :: "real list" where
  "logPv = logP"

definition qv :: "real list" where
  "qv = linspace 0.1 1.0 numq"

definition ev :: "real list" where
  "ev = map (\<lambda>e. e + 0.0001) (linspace 0.0 0.99 nume)"

text \<open>
  The three tables that \<open>populate_pdfs\<close> returns, indexed as in the source:
  \<open>cumqdist[q, logP, M1]\<close>, \<open>cumedist[e, logP, M1]\<close>, \<open>cumPbindist[logP, M1]\<close>.
\<close>

record cdf_grids =
  cumqdist :: "nat \<Rightarrow> nat \<Rightarrow> nat \<Rightarrow> real"
  cumedist :: "nat \<Rightarrow> nat \<Rightarrow> nat \<Rightarrow> real"
  cumPbindist :: "nat \<Rightarrow> nat \<Rightarrow> real"

subsection \<open>initial_sample\<close>

text \<open>
  The function is modelled statement by statement, with these readings where the text
  of the source would stop the interpreter before any sampling is done:
  \<^item> \<open>mycumPbindist\<close> is bound to the method \<open>flatten\<close> and called at each use; after the
    rescaling for low masses it is an array and is still written as a call. It is read
    as the flattened column throughout.
  \<^item> \<open>total_mass\<close> is only ever updated with \<open>+=\<close>; no statement gives it a first value.
    The value it has when the loop starts is the argument \<open>total0\<close> of the model.
  \<^item> The four random numbers of a trial are the fields of \<open>trial_draws\<close>; the last two
    are drawn only when the trial is a binary.
  \<^item> In \<open>porb_list.append(10**logP * sec_in_day)\<close> the name \<open>logP\<close> is the period
    axis (the only object of that name in the file), not the period \<open>mylogP\<close> selected
    for the trial; an entry of \<open>porb_list\<close> is therefore an array.
\<close>

record trial_draws =
  rand_M1 :: real
  rand_bin :: real
  rand_e :: real
  rand_q :: real

record population =
  primary_mass_list :: "real list"
  secondary_mass_list :: "real list"
  porb_list :: "real list list"
  ecc_list :: "real list"
  total_mass :: real

text \<open>The primary mass function and its cumulative table.\<close>

definition M1 :: "real list" where
  "M1 = map (\<lambda>m. m + 0.08) (linspace 0 150 150000)"

definition fM1_at :: "real \<Rightarrow> real" where
  "fM1_at m =
     (if m \<le> 0.5 then m powr (- 0.8) / 0.5 powr (1.6 - 0.8)
      else if m \<le> 1.0 then m powr (- 1.6)
      else m powr (- 2.3))"

definition fM1 :: "real list" where
  "fM1 = map fM1_at M1"

definition cumfM1 :: "real list py" where
  "cumfM1 = normalise_cdf fM1"

text \<open>
  \<open>np.where(abs(v - axis) == min(abs(v - axis)))[0]\<close>: every index at which the
  distance to \<open>v\<close> is least, as an array.
\<close>

definition nearest :: "real \<Rightarrow> real list \<Rightarrow> nat list" where
  "nearest v axis =
     (let d = map (\<lambda>a. \<bar>v - a\<bar>) axis
      in np_where (\<lambda>i. d ! i = Min (set d)) (length axis))"

text \<open>
  Indexing with index arrays, followed by \<open>flatten\<close>: \<open>A[:, inds]\<close> for a table of two
  axes, and \<open>A[:, js, is]\<close> for one of three, where the two index arrays are broadcast
  against each other.
\<close>

definition take_columns :: "(nat \<Rightarrow> nat \<Rightarrow> real) \<Rightarrow> nat \<Rightarrow> nat list \<Rightarrow> real list" where
  "take_columns A n inds = concat (map (\<lambda>j. map (\<lambda>i. A j i) inds) [0..<n])"

definition broadcast_pairs :: "nat list \<Rightarrow> nat list \<Rightarrow> (nat \<times> nat) list py" where
  "broadcast_pairs js is =
     (if length js = length is then Inr (zip js is)
      else if length is = 1 then Inr (map (\<lambda>j. (j, hd is)) js)
      else if length js = 1 then Inr (map (\<lambda>i. (hd js, i)) is)
      else Inl IndexError)"

definition take_fibres ::
  "(nat \<Rightarrow> nat \<Rightarrow> nat \<Rightarrow> real) \<Rightarrow> nat \<Rightarrow> nat list \<Rightarrow> nat list \<Rightarrow> real list py" where
  "take_fibres A n js is =
     bind (broadcast_pairs js is) (\<lambda>ps.
       Inr (concat (map (\<lambda>k. map (\<lambda>(j, i). A k j i) ps) [0..<n])))"

text \<open>Selecting the primary mass of a trial.\<close>

definition select_M1 :: "real list \<Rightarrow> real \<Rightarrow> real \<Rightarrow> real py" where
  "select_M1 cum cumf_M1min r = np_interp (cumf_M1min + (1 - cumf_M1min) * r) cum M1"

text \<open>The period table of the trial's mass, rescaled when the mass is at most 0.8.\<close>

definition period_cdf :: "cdf_grids \<Rightarrow> real \<Rightarrow> nat list \<Rightarrow> real list py" where
  "period_cdf T myM1 indM1 =
     (let col = take_columns (cumPbindist T) numlogP indM1 in
      if myM1 \<le> 0.8 then
        bind (np_log10 myM1) (\<lambda>l.
        bind (np_interp l [log 10 0.08, log 10 0.8] [0, 1]) (\<lambda>s.
        Inr (map (\<lambda>c. c * s) col)))
      else Inr col)"

text \<open>The eccentricity of a binary.\<close>

definition select_e :: "cdf_grids \<Rightarrow> nat list \<Rightarrow> nat list \<Rightarrow> real \<Rightarrow> real py" where
  "select_e T indlogP indM1 r =
     bind (take_fibres (cumedist T) nume indlogP indM1) (\<lambda>c. np_interp r c ev)"

text \<open>
  The mass ratio of a binary. Below 0.8 solar masses the table is shifted by its value
  at \<open>q_min = 0.08 / myM1\<close>, divided by its maximum and set to zero at the axis
  points that are at most \<open>q_min\<close>.
\<close>

definition truncate_q :: "real \<Rightarrow> real list \<Rightarrow> real list py" where
  "truncate_q myM1 mycumqdist =
     bind (np_divide 0.08 myM1) (\<lambda>q_min.
     bind (np_interp q_min qv mycumqdist) (\<lambda>cum_qmin.
     bind (divide_by_max (map (\<lambda>c. c - cum_qmin) mycumqdist)) (\<lambda>scaled.
     Inr (map (\<lambda>i. if qv ! i \<le> q_min then 0 else scaled ! i) [0..<length scaled]))))"

definition select_q :: "real \<Rightarrow> real list \<Rightarrow> real \<Rightarrow> real py" where
  "select_q myM1 mycumqdist r =
     bind (if myM1 < 0.8 then truncate_q myM1 mycumqdist else Inr mycumqdist) (\<lambda>c.
     np_interp r c qv)"

text \<open>The statements that record the trial.\<close>

definition record_binary :: "real \<Rightarrow> real \<Rightarrow> real \<Rightarrow> population \<Rightarrow> population" where
  "record_binary myM1 myq mye s =
     s\<lparr>primary_mass_list := primary_mass_list s @ [myM1],
       secondary_mass_list := secondary_mass_list s @ [myq * myM1],
       porb_list := porb_list s @ [map (\<lambda>p. 10 powr p * sec_in_day) logP],
       ecc_list := ecc_list s @ [mye],
       total_mass := total_mass s + myM1 + myq * myM1\<rparr>"

definition record_single :: "real \<Rightarrow> population \<Rightarrow> population" where
  "record_single myM1 s = s\<lparr>total_mass := total_mass s + myM1\<rparr>"

text \<open>One pass of the loop body, after the primary mass has been selected.\<close>

definition trial_at :: "cdf_grids \<Rightarrow> real \<Rightarrow> trial_draws \<Rightarrow> population \<Rightarrow> population py" where
  "trial_at T myM1 r s =
     (let indM1 = nearest myM1 M1v in
      bind (period_cdf T myM1 indM1) (\<lambda>mycumPbindist.
      bind (np_max mycumPbindist) (\<lambda>mybinfrac.
      let myrand = rand_bin r in
      if myrand < mybinfrac then
        bind (np_interp myrand mycumPbindist logPv) (\<lambda>mylogP.
        let indlogP = nearest mylogP logPv in
        bind (select_e T indlogP indM1 (rand_e r)) (\<lambda>mye.
        bind (take_fibres (cumqdist T) numq indlogP indM1) (\<lambda>mycumqdist.
        bind (select_q myM1 mycumqdist (rand_q r)) (\<lambda>myq.
        Inr (record_binary myM1 myq mye s)))))
      else Inr (record_single myM1 s))))"

definition trial ::
  "cdf_grids \<Rightarrow> real list \<Rightarrow> real \<Rightarrow> trial_draws \<Rightarrow> population \<Rightarrow> population py" where
  "trial T cum cumf_M1min r s =
     bind (select_M1 cum cumf_M1min (rand_M1 r)) (\<lambda>myM1. trial_at T myM1 r s)"

fun trials ::
  "cdf_grids \<Rightarrow> real list \<Rightarrow> real \<Rightarrow> trial_draws list \<Rightarrow> population \<Rightarrow> population py" where
  "trials T cum cumf_M1min [] s = Inr s"
| "trials T cum cumf_M1min (r # rs) s =
     bind (trial T cum cumf_M1min r s) (\<lambda>s'. trials T cum cumf_M1min rs s')"

text \<open>
  \<open>initial_sample\<close> with the tables \<open>T\<close> returned by \<open>populate_pdfs\<close>; \<open>size\<close> is the
  number of elements of \<open>rs\<close>.
\<close>

definition initial_sample ::
  "cdf_grids \<Rightarrow> real \<Rightarrow> trial_draws list \<Rightarrow> real \<Rightarrow> population py" where
  "initial_sample T M1min rs total0 =
     bind cumfM1 (\<lambda>cum.
     bind (np_interp M1min M1 cum) (\<lambda>cumf_M1min.
     trials T cum cumf_M1min rs
       \<lparr>primary_mass_list = [], secondary_mass_list = [], porb_list = [],
        ecc_list = [], total_mass = total0\<rparr>))"

text \<open>
  A set of tables for running the sampler on concrete draws: on each axis the
  cumulative table of the uniform density, the period table scaled to a binary
  fraction of one half.
\<close>

definition uniform_grids :: cdf_grids where
  "uniform_grids =
     \<lparr>cumqdist = (\<lambda>k j i. real k / 90),
      cumedist = (\<lambda>k j i. real k / 99),
      cumPbindist = (\<lambda>j i. real j / 157 / 2)\<rparr>"


subsection \<open>populate_pdfs\<close>

text \<open>
  The builder loops over the mass axis and, inside, over the period axis. The model has
  one function for each quantity the loop body computes, taking the mass \<open>myM1\<close> and
  the log-period \<open>mylogP\<close> of the cell. Chains of \<open>if\<close> statements whose conditions
  exclude each other and cover every case are written as one conditional expression.
  The integrals are over \<open>idl_tabulate\<close> with its default window of five points.
\<close>

fun sequence :: "'a py list \<Rightarrow> 'a list py" where
  "sequence [] = Inr []"
| "sequence (m # ms) = bind m (\<lambda>x. bind (sequence ms) (\<lambda>xs. Inr (x # xs)))"

definition divide_array :: "real list \<Rightarrow> real \<Rightarrow> real list py" where
  "divide_array xs d = (if d = 0 then Inl FloatingPointError else Inr (map (\<lambda>v. v / d) xs))"

text \<open>Python indexing of an array by an integer: negative indices count from the end.\<close>

definition py_index :: "real list \<Rightarrow> int \<Rightarrow> real py" where
  "py_index xs i =
     (let n = int (length xs); k = (if i < 0 then n + i else i)
      in if 0 \<le> k \<and> k < n then Inr (xs ! nat k) else Inl IndexError)"

text \<open>\<open>xs[ind] = vals\<close> for an index array \<open>ind\<close> and as many values.\<close>

definition assign :: "real list \<Rightarrow> nat list \<Rightarrow> real list \<Rightarrow> real list" where
  "assign xs ind vals = fold (\<lambda>(i, v) ys. ys[i := v]) (zip ind vals) xs"

definition alpha :: real where "alpha = 0.018"
definition DlogP :: real where "DlogP = 0.7"

text \<open>The step function for twins, normalised to unit integral.\<close>

definition H_step :: "real list" where
  "H_step = map (\<lambda>q. if q \<ge> 0.95 then 1 else 0) qv"

definition H_twin :: "(real list \<Rightarrow> real list) \<Rightarrow> real list py" where
  "H_twin general = bind (idl_tabulate general qv H_step 5) (divide_array H_step)"

definition indlq :: "nat list" where
  "indlq = np_where (\<lambda>i. qv ! i \<ge> 0.3) numq"

definition indq0p3 :: "nat py" where
  "indq0p3 = (if indlq = [] then Inl ValueError else Inr (Min (set indlq)))"

text \<open>Quantities that depend on the mass only.\<close>

definition FtwinlogPle1 :: "real \<Rightarrow> real" where
  "FtwinlogPle1 myM1 = 0.3 - 0.15 * log 10 myM1"

definition logPtwin :: "real \<Rightarrow> real" where
  "logPtwin myM1 = (if myM1 \<ge> 6.5 then 1.5 else 8.0 - myM1)"

definition flogPle1 :: "real \<Rightarrow> real" where
  "flogPle1 myM1 = 0.020 + 0.04 * log 10 myM1 + 0.07 * (log 10 myM1)\<^sup>2"

definition flogPeq2p7 :: "real \<Rightarrow> real" where
  "flogPeq2p7 myM1 = 0.039 + 0.07 * log 10 myM1 + 0.01 * (log 10 myM1)\<^sup>2"

definition flogPeq5p5 :: "real \<Rightarrow> real" where
  "flogPeq5p5 myM1 = 0.078 - 0.05 * log 10 myM1 + 0.04 * (log 10 myM1)\<^sup>2"

text \<open>The excess twin fraction of a cell.\<close>

definition Ftwin :: "real \<Rightarrow> real \<Rightarrow> real" where
  "Ftwin myM1 mylogP =
     (if mylogP \<ge> logPtwin myM1 then 0
      else if mylogP \<le> 1.0 then FtwinlogPle1 myM1
      else FtwinlogPle1 myM1 * (1.0 - (mylogP - 1.0) / (logPtwin myM1 - 1.0)))"

text \<open>The slopes of the mass-ratio density.\<close>

definition gl_1p2 :: "real \<Rightarrow> real" where
  "gl_1p2 mylogP = (if mylogP \<le> 5.0 then - 0.5 else - 0.5 - 0.3 * (mylogP - 5.0))"

definition gl_3p5 :: "real \<Rightarrow> real" where
  "gl_3p5 mylogP =
     (if mylogP \<le> 1.0 then - 0.5
      else if mylogP \<le> 4.5 then - 0.5 - 0.2 * (mylogP - 1.0)
      else if mylogP \<le> 6.5 then - 1.2 - 0.4 * (mylogP - 4.5)
      else - 2.0)"

definition gl_6 :: "real \<Rightarrow> real" where
  "gl_6 mylogP =
     (if mylogP \<le> 1.0 then - 0.5
      else if mylogP \<le> 2.0 then - 0.5 - 0.9 * (mylogP - 1.0)
      else if mylogP \<le> 4.0 then - 1.4 - 0.3 * (mylogP - 2.0)
      else - 2.0)"

definition gl :: "real \<Rightarrow> real \<Rightarrow> real py" where
  "gl myM1 mylogP =
     (if myM1 \<le> 1.2 then Inr (gl_1p2 mylogP)
      else if myM1 \<le> 3.5 then
        np_interp (log 10 myM1) [log 10 1.2, log 10 3.5] [gl_1p2 mylogP, gl_3p5 mylogP]
      else if myM1 \<le> 6.0 then
        np_interp (log 10 myM1) [log 10 3.5, log 10 6.0] [gl_3p5 mylogP, gl_6 mylogP]
      else Inr (gl_6 mylogP))"

definition gs_1p2 :: real where "gs_1p2 = 0.3"

definition gs_3p5 :: "real \<Rightarrow> real" where
  "gs_3p5 mylogP =
     (if mylogP \<le> 2.5 then 0.2
      else if mylogP \<le> 5.5 then 0.2 - 0.3 * (mylogP - 2.5)
      else - 0.7 - 0.2 * (mylogP - 5.5))"

definition gs_6 :: "real \<Rightarrow> real" where
  "gs_6 mylogP =
     (if mylogP \<le> 1.0 then 0.1
      else if mylogP \<le> 3.0 then 0.1 - 0.15 * (mylogP - 1.0)
      else if mylogP \<le> 5.6 then - 0.2 - 0.50 * (mylogP - 3.0)
      else - 1.5)"

definition gs :: "real \<Rightarrow> real \<Rightarrow> real py" where
  "gs myM1 mylogP =
     (if myM1 \<le> 1.2 then Inr gs_1p2
      else if myM1 \<le> 3.5 then
        np_interp (log 10 myM1) [log 10 1.2, log 10 3.5] [gs_1p2, gs_3p5 mylogP]
      else if myM1 \<le> 6.0 then
        np_interp (log 10 myM1) [log 10 3.5, log 10 6.0] [gs_3p5 mylogP, gs_6 mylogP]
      else Inr (gs_6 mylogP))"

text \<open>
  The mass-ratio density \<open>fq\<close> of a cell, before it is accumulated: the power law
  normalised over \<open>q \<ge> 0.3\<close>, the twins added, the slope below 0.3 attached.
\<close>

definition fq :: "(real list \<Rightarrow> real list) \<Rightarrow> real list \<Rightarrow> real \<Rightarrow> real \<Rightarrow> real list py" where
  "fq general H myM1 mylogP =
     bind (gl myM1 mylogP) (\<lambda>gl'.
     bind (gs myM1 mylogP) (\<lambda>gs'.
     let fq0 = map (\<lambda>q. q powr gl') qv in
     bind (idl_tabulate general (map (\<lambda>i. qv ! i) indlq) (map (\<lambda>i. fq0 ! i) indlq) 5) (\<lambda>norm.
     bind (divide_array fq0 norm) (\<lambda>fq1.
     let fq2 = map (\<lambda>(f, h). f * (1.0 - Ftwin myM1 mylogP) + h * Ftwin myM1 mylogP) (zip fq1 H) in
     bind indq0p3 (\<lambda>i0.
     Inr (map (\<lambda>i. if qv ! i < 0.3 then fq2 ! i0 * (qv ! i / 0.3) powr gs' else fq2 ! i)
            [0..<length fq2]))))))"

text \<open>The slope of the eccentricity density and the density \<open>fe\<close> of a cell.\<close>

definition eta_3 :: "real \<Rightarrow> real" where
  "eta_3 mylogP = (if mylogP \<ge> 0.7 then 0.6 - 0.7 / (mylogP - 0.5) else - 2.9)"

definition eta_7 :: "real \<Rightarrow> real" where
  "eta_7 mylogP = (if mylogP \<ge> 0.7 then 0.9 - 0.2 / (mylogP - 0.5) else - 0.1)"

definition eta :: "real \<Rightarrow> real \<Rightarrow> real py" where
  "eta myM1 mylogP =
     (if myM1 \<le> 3 then Inr (eta_3 mylogP)
      else if myM1 \<le> 7 then
        np_interp (log 10 myM1) [log 10 3, log 10 7] [eta_3 mylogP, eta_7 mylogP]
      else Inr (eta_7 mylogP))"

definition e_max :: "real \<Rightarrow> real" where
  "e_max mylogP = 1.0 - (10 powr mylogP / 2.0) powr (- 2.0 / 3.0)"

definition fe :: "real \<Rightarrow> real \<Rightarrow> real list py" where
  "fe myM1 mylogP =
     bind (eta myM1 mylogP) (\<lambda>eta'.
     if 10 powr mylogP \<le> 2 then Inr (map (\<lambda>e. e powr (- 3.2)) ev)
     else
       (let fe0 = map (\<lambda>e. e powr eta') ev;
            fe1 = map (\<lambda>i. if ev ! i \<ge> e_max mylogP then 0 else fe0 ! i) [0..<length fe0];
            ind = np_where (\<lambda>i. ev ! i \<ge> 0.8 * e_max mylogP \<and> ev ! i \<le> 1.0 * e_max mylogP)
                    (length ev)
        in bind (np_min (map real ind)) (\<lambda>_.
           let ind_cont = int (Min (set ind)) - 1 in
           bind (py_index fe1 ind_cont) (\<lambda>c.
           bind (sequence (map (\<lambda>i. np_interp (ev ! i)
                                   [0.8 * e_max mylogP, 1.0 * e_max mylogP] [c, 0]) ind)) (\<lambda>vals.
           Inr (assign fe1 ind vals))))))"

text \<open>The companion frequency per decade of period, and the inner-binary probability.\<close>

definition flogP :: "real \<Rightarrow> real \<Rightarrow> real" where
  "flogP myM1 mylogP =
     (if mylogP \<le> 1.0 then flogPle1 myM1
      else if mylogP \<le> 2.7 - DlogP then
        flogPle1 myM1 + (mylogP - 1.0) / (1.7 - DlogP)
          * (flogPeq2p7 myM1 - flogPle1 myM1 - alpha * DlogP)
      else if mylogP \<le> 2.7 + DlogP then flogPeq2p7 myM1 + alpha * (mylogP - 2.7)
      else if mylogP \<le> 5.5 then
        flogPeq2p7 myM1 + alpha * DlogP
          + (mylogP - 2.7 - DlogP) / (2.8 - DlogP)
            * (flogPeq5p5 myM1 - flogPeq2p7 myM1 - alpha * DlogP)
      else flogPeq5p5 myM1 * exp (- 0.3 * (mylogP - 5.5)))"

definition probbin :: "real \<Rightarrow> real \<Rightarrow> real" where
  "probbin myM1 mylogP =
     (let pb = (if mylogP \<le> 1.5 then 1.0
                else 1.0 - 0.11 * (mylogP - 1.5) powr 1.43 * (myM1 / 10.0) powr 0.56)
      in if pb \<le> 0.0 then 0.0 else pb)"

text \<open>
  One pass of the inner loop: the two cumulative slices of the cell and the two numbers
  \<open>flogP_sq[j,i]\<close> and \<open>probbin[j,i]\<close> that the period table of the mass needs.
\<close>

record cell =
  cumfq :: "real list"
  cumfe :: "real list"
  flogP_sq :: real
  probbin_ji :: real

definition build_cell ::
  "(real list \<Rightarrow> real list) \<Rightarrow> real list \<Rightarrow> real \<Rightarrow> real \<Rightarrow> cell py" where
  "build_cell general H myM1 mylogP =
     bind (fq general H myM1 mylogP) (\<lambda>fq'.
     bind (normalise_cdf fq') (\<lambda>cumfq'.
     bind (idl_tabulate general qv fq' 5) (\<lambda>q_factor.
     bind (fe myM1 mylogP) (\<lambda>fe'.
     bind (normalise_cdf fe') (\<lambda>cumfe'.
     Inr \<lparr>cumfq = cumfq', cumfe = cumfe', flogP_sq = flogP myM1 mylogP * q_factor,
          probbin_ji = probbin myM1 mylogP\<rparr>)))))"

text \<open>
  After the inner loop: the cumulative period table of the mass, scaled so that its
  maximum is the integral of the frequency of inner binaries.
\<close>

definition mycumPbindist ::
  "(real list \<Rightarrow> real list) \<Rightarrow> real list \<Rightarrow> real list py" where
  "mycumPbindist general w =
     bind (cum_offset w) (\<lambda>cum.
     bind (divide_by_max cum) (\<lambda>scaled.
     bind (idl_tabulate general logPv w 5) (\<lambda>binfrac.
     Inr (map (\<lambda>v. v * binfrac) scaled))))"

record mass_column =
  cells :: "cell list"
  cumPbin :: "real list"

definition build_column ::
  "(real list \<Rightarrow> real list) \<Rightarrow> real list \<Rightarrow> real \<Rightarrow> mass_column py" where
  "build_column general H myM1 =
     bind (sequence (map (\<lambda>j. build_cell general H myM1 (logPv ! j)) [0..<numlogP])) (\<lambda>cs.
     bind (mycumPbindist general (map (\<lambda>c. flogP_sq c * probbin_ji c) cs)) (\<lambda>col.
     Inr \<lparr>cells = cs, cumPbin = col\<rparr>))"

definition populate_pdfs :: "(real list \<Rightarrow> real list) \<Rightarrow> cdf_grids py" where
  "populate_pdfs general =
     bind (H_twin general) (\<lambda>H.
     bind (sequence (map (\<lambda>i. build_column general H (M1v ! i)) [0..<numM1])) (\<lambda>cols.
     Inr \<lparr>cumqdist = (\<lambda>k j i. cumfq (cells (cols ! i) ! j) ! k),
          cumedist = (\<lambda>k j i. cumfe (cells (cols ! i) ! j) ! k),
          cumPbindist = (\<lambda>j i. cumPbin (cols ! i) ! j)\<rparr>))"


section \<open>Properties of class Sample\<close>

text \<open>
  C10. With one draw in [0.001, 1) for each strictly positive primary mass, every
  secondary mass returned by \<open>sample_secondary\<close> is strictly below its primary and at
  least 0.001 times it, and there is one secondary for each primary.
\<close>

theorem sample_secondary_bounds:
  assumes len: "length a_0 = length primary_mass"
    and draws: "\<forall>a \<in> set a_0. 0.001 \<le> a \<and> a < 1"
    and pos: "\<forall>m \<in> set primary_mass. 0 < m"
  shows "length (sample_secondary primary_mass a_0) = length primary_mass
    \<and> (\<forall>i < length primary_mass.
          sample_secondary primary_mass a_0 ! i < primary_mass ! i
        \<and> 0.001 * primary_mass ! i \<le> sample_secondary primary_mass a_0 ! i)"
proof (intro conjI allI impI)
  show "length (sample_secondary primary_mass a_0) = length primary_mass"
    using len by (simp add: sample_secondary_def)
next
  fix i assume i: "i < length primary_mass"
  have m: "0 < primary_mass ! i" using pos i by simp
  have a: "0.001 \<le> a_0 ! i" "a_0 ! i < 1" using draws i len by simp_all
  have eq: "sample_secondary primary_mass a_0 ! i = primary_mass ! i * a_0 ! i"
    using i len by (simp add: sample_secondary_def)
  show "sample_secondary primary_mass a_0 ! i < primary_mass ! i"
    using m a(2) by (simp add: eq)
  show "0.001 * primary_mass ! i \<le> sample_secondary primary_mass a_0 ! i"
    using m a(1) by (simp add: eq mult.commute)
qed

theorem sample_secondary_bounds_witness:
  "length [0.001, 0.5 :: real] = length [10, 2 :: real]
   \<and> (0.001 :: real) \<le> 0.001 \<and> (0.001 :: real) < 1 \<and> (0.001 :: real) \<le> 0.5
   \<and> (0.5 :: real) < 1 \<and> (0 :: real) < 10 \<and> (0 :: real) < 2
   \<and> sample_secondary [10, 2] [0.001, 0.5] = [0.01, 1]
   \<and> sample_secondary [10, 2] [0.001, 0.5] ! 0 < [10, 2 :: real] ! 0
   \<and> 0.001 * [10, 2 :: real] ! 1 \<le> sample_secondary [10, 2] [0.001, 0.5] ! 1"
  using sample_secondary_bounds [of "[0.001, 0.5]" "[10, 2]"]
  by (simp add: sample_secondary_def)

text \<open>
  C7. \<open>binary_select\<close> keeps a mass as a binary when its fraction is strictly above the
  draw and as a single when it is strictly below; a mass whose fraction equals its draw
  is returned in neither array. At mass 1 the fraction is 1/2, and the draw 1/2 loses
  the star; the fraction formula itself gives 3/4 at mass 10.
\<close>

theorem binary_select_drops_tie:
  "binary_select [1] ''vanHaaften'' [1 / 2] = Inr (Some ([], []))
   \<and> binary_fraction 10 = 3 / 4"
  by (simp add: binary_select_def np_where_def fraction_gt_def fraction_lt_def
      binary_fraction_def)




section \<open>Auxiliary facts about the numpy functions and the mass table\<close>

lemma bind_Inr [simp]: "bind (Inr x) f = f x"
  by (simp add: bind_def)

lemma bind_Inl [simp]: "bind (Inl e) f = Inl e"
  by (simp add: bind_def)

lemma bind_eq_Inr: "bind m f = Inr y \<longleftrightarrow> (\<exists>x. m = Inr x \<and> f x = Inr y)"
  by (cases m) simp_all

lemma linspace_length [simp]: "length (linspace a b n) = n"
  by (simp add: linspace_def)

lemma linspace_nth: "i < n \<Longrightarrow> linspace a b n ! i = a + real i * ((b - a) / real (n - 1))"
  by (simp add: linspace_def)

lemma cumsum_from_length [simp]: "length (cumsum_from a xs) = length xs"
  by (induction xs arbitrary: a) simp_all

lemma cumsum_from_shift: "cumsum_from (a + b) xs = map (\<lambda>v. v + b) (cumsum_from a xs)"
proof (induction xs arbitrary: a)
  case Nil then show ?case by simp
next
  case (Cons x xs)
  have e: "a + b + x = (a + x) + b" by simp
  show ?case by (simp only: cumsum_from.simps list.map e Cons)
qed

lemma cum_offset_Cons: "cum_offset (x # xs) = Inr (0 # cumsum xs)"
proof -
  have "cumsum_from (0 + x) xs = map (\<lambda>v. v + x) (cumsum_from 0 xs)"
    by (rule cumsum_from_shift)
  then show ?thesis by (simp add: cum_offset_def cumsum_def comp_def)
qed

lemma cumsum_from_sorted:
  "\<forall>v \<in> set xs. 0 \<le> v \<Longrightarrow> sorted (a # cumsum_from a xs)"
proof (induction xs arbitrary: a)
  case Nil then show ?case by simp
next
  case (Cons x xs)
  then have "sorted ((a + x) # cumsum_from (a + x) xs)" by simp
  moreover have "a \<le> a + x" using Cons.prems by simp
  ultimately show ?case by (auto simp: order_trans)
qed

lemma sorted_Max_last: "sorted xs \<Longrightarrow> xs \<noteq> [] \<Longrightarrow> Max (set xs) = last xs"
proof -
  assume s: "sorted xs" and ne: "xs \<noteq> []"
  have "v \<le> last xs" if "v \<in> set xs" for v
  proof -
    from that obtain i where i: "i < length xs" "v = xs ! i" by (auto simp: in_set_conv_nth)
    have "xs ! i \<le> xs ! (length xs - 1)" using s i(1) by (intro sorted_nth_mono) auto
    then show ?thesis using i ne by (simp add: last_conv_nth)
  qed
  then show ?thesis using ne by (intro Max_eqI) auto
qed


lemma cumsum_from_last: "xs \<noteq> [] \<Longrightarrow> last (cumsum_from a xs) = a + sum_list xs"
proof (induction xs arbitrary: a)
  case Nil then show ?case by simp
next
  case (Cons x xs)
  show ?case
  proof (cases "xs = []")
    case True then show ?thesis by simp
  next
    case False
    then have "cumsum_from (a + x) xs \<noteq> []" by (cases xs) simp_all
    then show ?thesis using Cons.IH [OF False, of "a + x"] by simp
  qed
qed

lemma cum_offset_sorted:
  assumes "\<forall>v \<in> set xs. 0 \<le> v"
  shows "sorted (0 # cumsum xs)"
  using cumsum_from_sorted [OF assms, of 0] by (simp add: cumsum_def)

lemma cum_offset_last: "last (0 # cumsum xs) = sum_list xs"
proof (cases "xs = []")
  case True then show ?thesis by (simp add: cumsum_def)
next
  case False
  then have "cumsum xs \<noteq> []" by (cases xs) (simp_all add: cumsum_def)
  then show ?thesis using cumsum_from_last [OF False, of 0] by (simp add: cumsum_def)
qed

lemma divide_by_max_sorted:
  assumes s: "sorted c" and ne: "c \<noteq> []" and pos: "0 < last c"
  shows "divide_by_max c = Inr (map (\<lambda>v. v / last c) c)"
  using sorted_Max_last [OF s ne] ne pos by (simp add: divide_by_max_def np_max_def)

lemma normalise_cdf_nonneg:
  assumes nn: "\<forall>v \<in> set xs. 0 \<le> v" and pos: "0 < sum_list xs"
  shows "normalise_cdf (x # xs) = Inr (map (\<lambda>v. v / sum_list xs) (0 # cumsum xs))"
proof -
  have "divide_by_max (0 # cumsum xs) = Inr (map (\<lambda>v. v / last (0 # cumsum xs)) (0 # cumsum xs))"
    by (rule divide_by_max_sorted [OF cum_offset_sorted [OF nn]])
       (simp_all only: cum_offset_last pos list.distinct not_False_eq_True)
  then show ?thesis
    by (simp only: normalise_cdf_def cum_offset_Cons bind_Inr cum_offset_last)
qed

lemma normalised_sorted:
  assumes nn: "\<forall>v \<in> set xs. 0 \<le> v" and pos: "0 < sum_list xs"
  shows "sorted (map (\<lambda>v. v / sum_list xs) (0 # cumsum xs))"
proof -
  show ?thesis
    by (rule sorted_wrt_map_mono [OF cum_offset_sorted [OF nn]])
       (use pos in \<open>simp add: divide_right_mono\<close>)
qed


lemma interp_index_props:
  assumes "xp \<noteq> []" "hd xp \<le> x"
  shows "interp_index x xp < length xp" "xp ! interp_index x xp \<le> x"
    "interp_index x xp + 1 < length xp \<Longrightarrow> x < xp ! (interp_index x xp + 1)"
proof -
  let ?t = "takeWhile (\<lambda>v. v \<le> x) xp"
  have tne: "?t \<noteq> []" using assms by (cases xp) simp_all
  then have l0: "0 < length ?t" by simp
  have le: "length ?t \<le> length xp" by (rule length_takeWhile_le)
  show "interp_index x xp < length xp" using l0 le unfolding interp_index_def by linarith
  have "?t ! (length ?t - 1) \<in> set ?t" using l0 by simp
  then have "?t ! (length ?t - 1) \<le> x" by (meson set_takeWhileD)
  moreover have "?t ! (length ?t - 1) = xp ! (length ?t - 1)"
    using l0 by (intro takeWhile_nth) simp
  ultimately show "xp ! interp_index x xp \<le> x" by (simp add: interp_index_def)
  have e: "interp_index x xp + 1 = length ?t" using l0 unfolding interp_index_def by linarith
  assume "interp_index x xp + 1 < length xp"
  then have lt: "length ?t < length xp" unfolding e .
  have "\<not> (xp ! length ?t \<le> x)" by (rule nth_length_takeWhile [OF lt])
  then show "x < xp ! (interp_index x xp + 1)" unfolding e by simp
qed

lemma np_interp_lower:
  assumes fp: "\<forall>v \<in> set fp. lo \<le> v" and r: "np_interp x xp fp = Inr y"
  shows "lo \<le> y"
proof -
  have ne: "xp \<noteq> []" and len: "length fp = length xp"
    using r by (auto simp: np_interp_def split: if_splits)
  then have fne: "fp \<noteq> []" by auto
  have nth: "\<And>i. i < length xp \<Longrightarrow> lo \<le> fp ! i" using fp len by simp
  show ?thesis
  proof (cases "x > last xp \<or> x < hd xp")
    case True
    then have "y = last fp \<or> y = hd fp" using r ne len by (auto simp: np_interp_def split: if_splits)
    then show ?thesis using fp fne by (auto simp: hd_in_set)
  next
    case False
    then have hx: "hd xp \<le> x" by simp
    let ?j = "interp_index x xp"
    note ip = interp_index_props [OF ne hx]
    show ?thesis
    proof (cases "?j = length xp - 1 \<or> xp ! ?j = x")
      case True
      then have "y = fp ! ?j" using r ne len False by (auto simp: np_interp_def Let_def split: if_splits)
      then show ?thesis using nth ip(1) by simp
    next
      case F2: False
      then have j1: "?j + 1 < length xp" using ip(1) by linarith
      have y: "y = (fp ! (?j + 1) - fp ! ?j) / (xp ! (?j + 1) - xp ! ?j) * (x - xp ! ?j) + fp ! ?j"
        using r ne len False F2 by (auto simp: np_interp_def Let_def split: if_splits)
      define t where "t = (x - xp ! ?j) / (xp ! (?j + 1) - xp ! ?j)"
      have d: "0 < xp ! (?j + 1) - xp ! ?j" using ip(2) ip(3) [OF j1] by linarith
      have t0: "0 \<le> t" using ip(2) d by (simp add: t_def)
      have t1: "t \<le> 1" using ip(3) [OF j1] d by (simp add: t_def)
      have y2: "y = (1 - t) * fp ! ?j + t * fp ! (?j + 1)"
        unfolding y t_def by (simp add: algebra_simps diff_divide_distrib add_divide_distrib)
      have "(1 - t) * lo + t * lo \<le> (1 - t) * fp ! ?j + t * fp ! (?j + 1)"
        using t0 t1 nth [OF j1] nth [OF ip(1)] by (intro add_mono mult_left_mono) simp_all
      then show ?thesis unfolding y2 by (simp add: algebra_simps)
    qed
  qed
qed


lemma M1_length: "length M1 = 150000"
  by (simp only: M1_def length_map linspace_length)

lemma M1_nth: "i < 150000 \<Longrightarrow> M1 ! i = real i * (150 / 149999) + 0.08"
proof -
  assume i: "i < 150000"
  have "M1 ! i = linspace 0 150 150000 ! i + 0.08"
    using i by (simp only: M1_def nth_map linspace_length)
  also have "linspace 0 150 150000 ! i = 0 + real i * ((150 - 0) / real (150000 - 1))"
    using i by (rule linspace_nth)
  finally show ?thesis by simp
qed

lemma M1_ne: "M1 \<noteq> []"
  using M1_length by auto

lemma M1_hd: "hd M1 = 0.08"
  using M1_nth [of 0] M1_ne by (simp add: hd_conv_nth)

lemma M1_lower: "\<forall>m \<in> set M1. 0.08 \<le> m"
proof
  fix m assume "m \<in> set M1"
  then obtain i where i: "i < 150000" "m = M1 ! i"
    by (auto simp: in_set_conv_nth M1_length)
  then show "0.08 \<le> m" by (simp add: M1_nth)
qed


lemma fM1_at_pos: "0 < m \<Longrightarrow> 0 < fM1_at m"
  by (simp add: fM1_at_def)

lemma fM1_length: "length fM1 = 150000"
  by (simp only: fM1_def length_map M1_length)

lemma fM1_pos: "\<forall>v \<in> set fM1. 0 < v"
proof
  fix v assume "v \<in> set fM1"
  then obtain m where m: "m \<in> set M1" "v = fM1_at m" by (auto simp: fM1_def)
  then have "0 < m" using M1_lower by fastforce
  then show "0 < v" using m(2) fM1_at_pos by simp
qed

lemma sum_list_pos_real:
  fixes xs :: "real list"
  assumes "\<forall>v \<in> set xs. 0 < v" "xs \<noteq> []"
  shows "0 < sum_list xs"
  using assms
proof (induction xs)
  case Nil then show ?case by simp
next
  case (Cons x xs)
  show ?case
  proof (cases "xs = []")
    case True then show ?thesis using Cons.prems by simp
  next
    case False
    then have "0 < sum_list xs" using Cons by simp
    then show ?thesis using Cons.prems by (simp add: add_pos_pos)
  qed
qed

lemma list_two: "2 \<le> length xs \<Longrightarrow> xs = xs ! 0 # xs ! 1 # drop 2 xs"
  by (cases xs; cases "tl xs") auto

lemma cumfM1_props:
  obtains cum where "cumfM1 = Inr cum" "length cum = 150000" "cum ! 0 = 0" "0 < cum ! 1"
    "last cum = 1"
proof -
  have l2: "2 \<le> length fM1" by (simp add: fM1_length)
  obtain x y ys where f: "fM1 = x # y # ys" using list_two [OF l2] by metis
  let ?xs = "y # ys"
  have pos: "\<forall>v \<in> set ?xs. 0 < v" using fM1_pos unfolding f by simp
  then have nn: "\<forall>v \<in> set ?xs. 0 \<le> v" by (simp add: less_imp_le)
  have S: "0 < sum_list ?xs" by (rule sum_list_pos_real [OF pos]) simp
  let ?cum = "map (\<lambda>v. v / sum_list ?xs) (0 # cumsum ?xs)"
  have c: "cumfM1 = Inr ?cum"
    unfolding cumfM1_def f by (rule normalise_cdf_nonneg [OF nn S])
  have len: "length ?cum = 150000"
    using fM1_length unfolding f by (simp add: cumsum_def)
  have c0: "?cum ! 0 = 0" by simp
  have c1: "0 < ?cum ! 1" using pos S by (simp add: cumsum_def)
  have "last ?cum = last (0 # cumsum ?xs) / sum_list ?xs"
    by (simp only: last_map list.distinct not_False_eq_True)
  also have "\<dots> = 1" using S by (simp only: cum_offset_last) simp
  finally have cl: "last ?cum = 1" .
  show ?thesis by (rule that [OF c len c0 c1 cl])
qed

lemma np_interp_at_first:
  assumes len: "length fp = length xp" and l2: "2 \<le> length xp"
    and a: "xp ! 0 = a" "a < xp ! 1" "a \<le> last xp"
  shows "np_interp a xp fp = Inr (fp ! 0)"
proof -
  obtain b rest where xp: "xp = a # b # rest" using list_two [OF l2] a(1) by metis
  have b: "a < b" using a(2) xp by simp
  have j: "interp_index a xp = 0" using b by (simp add: interp_index_def xp)
  have "\<not> a > last xp" using a(3) by simp
  moreover have "\<not> a < hd xp" by (simp add: xp)
  moreover have "xp \<noteq> []" by (simp add: xp)
  ultimately show ?thesis using len a(1) unfolding np_interp_def j Let_def by simp
qed

lemma np_interp_left:
  assumes "length fp = length xp" "xp \<noteq> []" "x < hd xp" "x \<le> last xp"
  shows "np_interp x xp fp = Inr (hd fp)"
  using assms by (simp add: np_interp_def)

section \<open>Auxiliary facts about the sampler at the floor of the mass range\<close>

lemma linspace_sorted: "a < b \<Longrightarrow> sorted_wrt (<) (linspace a b n)"
proof -
  assume ab: "a < b"
  show ?thesis
  proof (cases "2 \<le> n")
    case True
    then have d: "0 < (b - a) / real (n - 1)" using ab by simp
    have "real x * ((b - a) / real (n - 1)) < real y * ((b - a) / real (n - 1))"
      if "x < y" for x y :: nat
      using that d by (intro mult_strict_right_mono) simp_all
    then show ?thesis unfolding linspace_def
      by (intro sorted_wrt_map_mono [OF sorted_wrt_upt]) simp
  next
    case False
    then have "length (linspace a b n) \<le> 1" by simp
    then show ?thesis by (rule sorted_wrt01)
  qed
qed

lemma M1v_sorted: "sorted_wrt (<) M1v"
proof -
  have "log 10 0.8 < log 10 (40::real)" by simp
  then have "sorted_wrt (<) (linspace (log 10 0.8) (log 10 40) numM1)" by (rule linspace_sorted)
  then show ?thesis unfolding M1v_def logspace_def
    by (rule sorted_wrt_map_mono) simp
qed

lemma M1v_length: "length M1v = 101"
  by (simp add: M1v_def logspace_def numM1_def)

lemma M1v_hd: "hd M1v = 0.8"
proof -
  have "M1v ! 0 = 10 powr (linspace (log 10 0.8) (log 10 40) numM1 ! 0)"
    unfolding M1v_def logspace_def by (rule nth_map) (simp add: numM1_def)
  also have "linspace (log 10 0.8) (log 10 40) numM1 ! 0 = log 10 0.8"
    by (simp add: linspace_nth numM1_def)
  finally have "M1v ! 0 = 0.8" by simp
  moreover have "M1v \<noteq> []" using M1v_length by auto
  ultimately show ?thesis by (simp add: hd_conv_nth)
qed

lemma nearest_first:
  assumes s: "sorted_wrt (<) axis" and ne: "axis \<noteq> []" and v: "v \<le> hd axis"
  shows "nearest v axis = [0]"
proof -
  define d where "d = map (\<lambda>a. \<bar>v - a\<bar>) axis"
  have dl: "length d = length axis" by (simp add: d_def)
  have n0: "0 < length axis" using ne by simp
  have lt: "d ! 0 < d ! i" if "0 < i" "i < length axis" for i
  proof -
    have "axis ! 0 < axis ! i" using sorted_wrt_nth_less [OF s that] .
    moreover have "v \<le> axis ! 0" using v ne by (simp add: hd_conv_nth)
    ultimately show ?thesis using that n0 by (simp add: d_def)
  qed
  have "Min (set d) = d ! 0"
  proof (rule Min_eqI)
    show "finite (set d)" by simp
    show "d ! 0 \<in> set d" using n0 dl by simp
    fix y assume "y \<in> set d"
    then obtain i where i: "i < length axis" "y = d ! i" by (auto simp: in_set_conv_nth dl)
    show "d ! 0 \<le> y"
    proof (cases "i = 0")
      case True then show ?thesis using i by simp
    next
      case False then show ?thesis using lt [of i] i by simp
    qed
  qed
  then have m: "Min (set d) = d ! 0" .
  have up: "[0..<length axis] = 0 # [1..<length axis]" using n0 by (simp add: upt_conv_Cons)
  have "d ! i \<noteq> d ! 0" if "i \<in> set [1..<length axis]" for i
    using lt [of i] that by simp
  then have "filter (\<lambda>i. d ! i = d ! 0) [1..<length axis] = []"
    by (simp only: filter_empty_conv) blast
  then show ?thesis
    unfolding nearest_def d_def [symmetric] Let_def np_where_def m up by simp
qed

lemma take_columns_length: "length (take_columns A n inds) = n * length inds"
  by (simp add: take_columns_def length_concat comp_def sum_list_triv)

lemma period_cdf_floor:
  "period_cdf T 0.08 [0] = Inr (map (\<lambda>c. c * 0) (take_columns (cumPbindist T) numlogP [0]))"
proof -
  have "np_interp (log 10 0.08) [log 10 0.08, log 10 0.8] [0, 1] = Inr ([0, 1] ! 0)"
    by (rule np_interp_at_first) simp_all
  then show ?thesis by (simp add: period_cdf_def np_log10_def)
qed

lemma trial_at_floor:
  assumes "0 \<le> rand_bin r"
  shows "trial_at T 0.08 r s = Inr (record_single 0.08 s)"
proof -
  have n: "nearest 0.08 M1v = [0]"
    by (rule nearest_first [OF M1v_sorted]) (use M1v_length in \<open>auto simp: M1v_hd\<close>)
  let ?z = "map (\<lambda>c. c * 0) (take_columns (cumPbindist T) numlogP [0])"
  have zl: "length ?z = 158" by (simp add: take_columns_length numlogP_def)
  then have zne: "?z \<noteq> []" by auto
  have "set ?z = {0}"
  proof -
    have "set ?z \<subseteq> {0}" by auto
    moreover have "set ?z \<noteq> {}" using zne by simp
    ultimately show ?thesis by (meson subset_singletonD)
  qed
  then have mx: "np_max ?z = Inr 0" using zne by (simp add: np_max_def)
  show ?thesis
    unfolding trial_at_def n Let_def period_cdf_floor bind_Inr mx using assms by simp
qed

lemma M1_last_ge: "0.08 \<le> last M1"
  using M1_lower M1_ne by (meson last_in_set)

lemma cumf_M1min_floor:
  assumes c: "cumfM1 = Inr cum" and m: "M1min \<le> 0.08"
  shows "np_interp M1min M1 cum = Inr 0"
proof -
  obtain cum' where p: "cumfM1 = Inr cum'" "length cum' = 150000" "cum' ! 0 = 0"
    by (rule cumfM1_props)
  have e: "cum' = cum" using c unfolding p(1) by simp
  have len: "length cum = length M1" using p(2) e M1_length by simp
  have c0: "cum ! 0 = 0" using p(3) e by simp
  have cne: "cum \<noteq> []" using len M1_ne by auto
  show ?thesis
  proof (cases "M1min < 0.08")
    case True
    have "np_interp M1min M1 cum = Inr (hd cum)"
      by (rule np_interp_left [OF len M1_ne]) (use True M1_hd M1_last_ge in simp_all)
    then show ?thesis using c0 cne by (simp add: hd_conv_nth)
  next
    case False
    then have e8: "M1min = 0.08" using m by simp
    have "np_interp 0.08 M1 cum = Inr (cum ! 0)"
      by (rule np_interp_at_first [OF len])
         (use M1_length M1_last_ge in \<open>simp_all add: M1_nth\<close>)
    then show ?thesis unfolding e8 using c0 by simp
  qed
qed

lemma select_M1_floor:
  assumes c: "cumfM1 = Inr cum"
  shows "select_M1 cum 0 0 = Inr 0.08"
proof -
  obtain cum' where p: "cumfM1 = Inr cum'" "length cum' = 150000" "cum' ! 0 = 0"
    "0 < cum' ! 1" "last cum' = 1"
    by (rule cumfM1_props)
  have e: "cum' = cum" using c unfolding p(1) by simp
  have len: "length M1 = length cum" using p(2) e M1_length by simp
  have "np_interp 0 cum M1 = Inr (M1 ! 0)"
    by (rule np_interp_at_first [OF len]) (use p e in simp_all)
  then show ?thesis by (simp add: select_M1_def M1_nth)
qed

subsection \<open>Interpolation between two points of a table\<close>

lemma interp_index_between:
  assumes j1: "j + 1 < length xp" and le: "\<forall>i \<le> j. xp ! i \<le> x" and lt: "x < xp ! (j + 1)"
  shows "interp_index x xp = j"
proof -
  have "takeWhile (\<lambda>v. v \<le> x) xp = take (j + 1) xp"
    by (rule takeWhile_eq_take_P_nth) (use le lt in \<open>auto simp: less_Suc_eq_le\<close>)
  then show ?thesis using j1 by (simp add: interp_index_def)
qed

lemma np_interp_between:
  assumes len: "length fp = length xp" and j1: "j + 1 < length xp"
    and le: "\<forall>i \<le> j. xp ! i \<le> x" and lt: "x < xp ! (j + 1)" and top: "x \<le> last xp"
  shows "np_interp x xp fp =
    Inr (if xp ! j = x then fp ! j
         else (fp ! (j + 1) - fp ! j) / (xp ! (j + 1) - xp ! j) * (x - xp ! j) + fp ! j)"
proof -
  have ne: "xp \<noteq> []" using j1 by auto
  have "xp ! 0 \<le> x" using le by simp
  then have hd: "\<not> x < hd xp" using ne by (simp add: hd_conv_nth)
  have idx: "interp_index x xp = j" by (rule interp_index_between [OF j1 le lt])
  have nl: "j \<noteq> length xp - 1" using j1 by simp
  show ?thesis unfolding np_interp_def idx Let_def using ne len hd top nl by simp
qed

lemma qv_length: "length qv = 91"
  by (simp add: qv_def numq_def)

lemma qv_nth: "i < 91 \<Longrightarrow> qv ! i = 1 / 10 + real i / 100"
  by (simp add: qv_def numq_def linspace_nth)

lemma qv_last: "last qv = 1"
proof -
  have "qv \<noteq> []" using qv_length by auto
  then have "last qv = qv ! 90" by (simp add: last_conv_nth qv_length)
  then show ?thesis by (simp add: qv_nth)
qed



subsection \<open>Trials that select the lowest mass\<close>

lemma trial_floor:
  assumes c: "cumfM1 = Inr cum" and r: "rand_M1 r = 0" "0 \<le> rand_bin r"
  shows "trial T cum 0 r s = Inr (record_single 0.08 s)"
  by (simp only: trial_def r(1) select_M1_floor [OF c] bind_Inr trial_at_floor [OF r(2)])

lemma trials_floor:
  assumes c: "cumfM1 = Inr cum" and r: "rand_M1 r = 0" "0 \<le> rand_bin r"
  shows "trials T cum 0 (replicate n r) s = Inr (s\<lparr>total_mass := total_mass s + real n * 0.08\<rparr>)"
proof (induction n arbitrary: s)
  case 0 then show ?case by simp
next
  case (Suc n)
  have "trials T cum 0 (replicate (Suc n) r) s
      = trials T cum 0 (replicate n r) (record_single 0.08 s)"
    by (simp only: replicate_Suc trials.simps trial_floor [OF c r] bind_Inr)
  also have "\<dots> = Inr ((record_single 0.08 s)
      \<lparr>total_mass := total_mass (record_single 0.08 s) + real n * 0.08\<rparr>)"
    by (rule Suc)
  finally show ?case by (simp add: record_single_def algebra_simps)
qed

lemma initial_sample_floor:
  assumes m: "M1min \<le> 0.08" and r: "rand_M1 r = 0" "0 \<le> rand_bin r"
  shows "initial_sample T M1min (replicate n r) total0
    = Inr \<lparr>primary_mass_list = [], secondary_mass_list = [], porb_list = [],
           ecc_list = [], total_mass = total0 + real n * 0.08\<rparr>"
proof -
  obtain cum where c: "cumfM1 = Inr cum" by (rule cumfM1_props)
  show ?thesis
    by (simp only: initial_sample_def c bind_Inr cumf_M1min_floor [OF c m] trials_floor [OF c r])
       simp
qed

lemma trial_at_cases:
  assumes "trial_at T myM1 r s = Inr s'"
  shows "s' = record_single myM1 s \<or> (\<exists>myq mye. s' = record_binary myM1 myq mye s)"
  using assms
  by (auto simp: trial_at_def Let_def bind_eq_Inr split: if_splits)

subsection \<open>What the loop appends and adds\<close>

lemma trials_account:
  assumes "trials T cum cumf rs s = Inr s'"
  shows "\<exists>ms bs qs ps es. length ms = length rs
     \<and> (\<forall>k < length rs. select_M1 cum cumf (rand_M1 (rs ! k)) = Inr (ms ! k))
     \<and> subseq bs ms
     \<and> primary_mass_list s' = primary_mass_list s @ bs
     \<and> secondary_mass_list s' = secondary_mass_list s @ qs \<and> length qs = length bs
     \<and> porb_list s' = porb_list s @ ps \<and> length ps = length bs
     \<and> ecc_list s' = ecc_list s @ es \<and> length es = length bs
     \<and> total_mass s' = total_mass s + sum_list ms + sum_list qs"
  using assms
proof (induction rs arbitrary: s)
  case Nil
  then have "s' = s" by simp
  then show ?case by (intro exI [of _ "[]"]) simp
next
  case (Cons r rs)
  from Cons.prems obtain s1 where t: "trial T cum cumf r s = Inr s1"
    and rest: "trials T cum cumf rs s1 = Inr s'"
    by (auto simp: bind_eq_Inr)
  from t obtain m where m: "select_M1 cum cumf (rand_M1 r) = Inr m"
    and ta: "trial_at T m r s = Inr s1"
    by (auto simp: trial_def bind_eq_Inr)
  from Cons.IH [OF rest] obtain ms bs qs ps es where ih:
    "length ms = length rs"
    "\<forall>k < length rs. select_M1 cum cumf (rand_M1 (rs ! k)) = Inr (ms ! k)"
    "subseq bs ms"
    "primary_mass_list s' = primary_mass_list s1 @ bs"
    "secondary_mass_list s' = secondary_mass_list s1 @ qs" "length qs = length bs"
    "porb_list s' = porb_list s1 @ ps" "length ps = length bs"
    "ecc_list s' = ecc_list s1 @ es" "length es = length bs"
    "total_mass s' = total_mass s1 + sum_list ms + sum_list qs"
    by blast
  have sel: "\<forall>k < length (r # rs). select_M1 cum cumf (rand_M1 ((r # rs) ! k)) = Inr ((m # ms) ! k)"
  proof (intro allI impI)
    fix k assume "k < length (r # rs)"
    then show "select_M1 cum cumf (rand_M1 ((r # rs) ! k)) = Inr ((m # ms) ! k)"
      using m ih(2) by (cases k) simp_all
  qed
  from trial_at_cases [OF ta] show ?case
  proof
    assume s1: "s1 = record_single m s"
    show ?thesis
      apply (rule exI [of _ "m # ms"], rule exI [of _ bs], rule exI [of _ qs])
      apply (rule exI [of _ ps], rule exI [of _ es])
      using ih sel list_emb_Cons [OF ih(3), of m] by (simp add: s1 record_single_def)
  next
    assume "\<exists>myq mye. s1 = record_binary m myq mye s"
    then obtain myq mye where s1: "s1 = record_binary m myq mye s" by blast
    show ?thesis
      apply (rule exI [of _ "m # ms"], rule exI [of _ "m # bs"], rule exI [of _ "(myq * m) # qs"])
      apply (rule exI [of _ "map (\<lambda>p. 10 powr p * sec_in_day) logP # ps"])
      apply (rule exI [of _ "mye # es"])
      using ih sel by (simp add: s1 record_binary_def)
  qed
qed

lemma select_M1_lower: "select_M1 cum cumf r = Inr m \<Longrightarrow> 0.08 \<le> m"
  unfolding select_M1_def by (rule np_interp_lower [OF M1_lower])


subsection \<open>A binary trial at the top of the mass grid\<close>

lemma nearest_last:
  assumes s: "sorted_wrt (<) axis" and ne: "axis \<noteq> []" and v: "last axis \<le> v"
  shows "nearest v axis = [length axis - 1]"
proof -
  define d where "d = map (\<lambda>a. \<bar>v - a\<bar>) axis"
  define n where "n = length axis - 1"
  have dl: "length d = length axis" by (simp add: d_def)
  have n0: "n < length axis" using ne by (simp add: n_def)
  have vl: "axis ! n \<le> v" using v ne by (simp add: last_conv_nth n_def)
  have lt: "d ! n < d ! i" if "i < n" for i
  proof -
    have "axis ! i < axis ! n" using sorted_wrt_nth_less [OF s that n0] .
    then show ?thesis using that n0 vl by (simp add: d_def)
  qed
  have m: "Min (set d) = d ! n"
  proof (rule Min_eqI)
    show "finite (set d)" by simp
    show "d ! n \<in> set d" using n0 dl by simp
    fix y assume "y \<in> set d"
    then obtain i where i: "i < length axis" "y = d ! i" by (auto simp: in_set_conv_nth dl)
    show "d ! n \<le> y"
    proof (cases "i = n")
      case True then show ?thesis using i by simp
    next
      case False
      then have "i < n" using i(1) by (simp add: n_def)
      then show ?thesis using lt [of i] i by simp
    qed
  qed
  have up: "[0..<length axis] = [0..<n] @ [n]"
  proof -
    have "length axis = Suc n" using ne by (simp add: n_def)
    then show ?thesis by simp
  qed
  have "d ! i \<noteq> d ! n" if "i \<in> set [0..<n]" for i
    using lt [of i] that by simp
  then have "filter (\<lambda>i. d ! i = d ! n) [0..<n] = []"
    by (simp only: filter_empty_conv) blast
  then show ?thesis
    unfolding nearest_def d_def [symmetric] Let_def np_where_def m up n_def [symmetric] by simp
qed

lemma M1v_last: "last M1v = 40"
proof -
  have "M1v ! 100 = 10 powr (linspace (log 10 0.8) (log 10 40) numM1 ! 100)"
    unfolding M1v_def logspace_def by (rule nth_map) (simp add: numM1_def)
  also have "linspace (log 10 0.8) (log 10 40) numM1 ! 100 = log 10 40"
    by (simp add: linspace_nth numM1_def diff_divide_distrib)
  finally have "M1v ! 100 = 40" by simp
  moreover have "M1v \<noteq> []" using M1v_length by auto
  ultimately show ?thesis by (simp add: last_conv_nth M1v_length)
qed

lemma logPv_length: "length logPv = 158"
  by (simp add: logPv_def logP_def numlogP_def)

lemma logPv_sorted: "sorted_wrt (<) logPv"
  unfolding logPv_def logP_def by (rule linspace_sorted) simp

lemma logPv_nth: "i < 158 \<Longrightarrow> logPv ! i = 3 / 20 + real i / 20"
  by (simp add: logPv_def logP_def numlogP_def linspace_nth)

lemma ev_length: "length ev = 100"
  by (simp add: ev_def nume_def)

lemma ev_nth: "i < 100 \<Longrightarrow> ev ! i = real i / 100 + 1 / 10000"
  by (simp add: ev_def nume_def linspace_nth)

lemma take_columns_single: "take_columns A n [i] = map (\<lambda>j. A j i) [0..<n]"
  by (induction n) (simp_all add: take_columns_def)

lemma take_fibres_single:
  "take_fibres A n [j] [i] = Inr (map (\<lambda>k. A k j i) [0..<n])"
proof -
  have "concat (map (\<lambda>k. [A k j i]) [0..<n]) = map (\<lambda>k. A k j i) [0..<n]"
    by (induction n) simp_all
  then show ?thesis by (simp add: take_fibres_def broadcast_pairs_def)
qed


lemma uniform_period_column:
  "take_columns (cumPbindist uniform_grids) numlogP [i] = map (\<lambda>j. real j / 157 / 2) [0..<158]"
  by (simp only: take_columns_single uniform_grids_def cdf_grids.simps numlogP_def)

lemma trial_at_top_of_grid:
  "trial_at uniform_grids 40 \<lparr>rand_M1 = u, rand_bin = 0, rand_e = 0, rand_q = 0\<rparr> s
     = Inr (record_binary 40 (1 / 10) (1 / 10000) s)"
proof -
  define col where "col = map (\<lambda>j. real j / 157 / 2) [0..<158]"
  define ecdf where "ecdf = map (\<lambda>k. real k / 99) [0..<100]"
  define qcdf where "qcdf = map (\<lambda>k. real k / 90) [0..<91]"
  have "M1v \<noteq> []" using M1v_length by auto
  then have n: "nearest 40 M1v = [100]"
    using nearest_last [OF M1v_sorted, of 40] M1v_length M1v_last by simp
  have cl: "length col = 158" by (simp add: col_def del: upt_rec_numeral)
  have cn: "col ! i = real i / 157 / 2" if "i < 158" for i
    using that by (simp add: col_def del: upt_rec_numeral)
  have cs: "sorted col" unfolding col_def
    by (rule sorted_wrt_map_mono [OF sorted_upt]) (simp add: divide_right_mono)
  have cne: "col \<noteq> []" using cl by auto
  have clast: "last col = 1 / 2" using cne by (simp add: last_conv_nth cl cn)
  have p: "period_cdf uniform_grids 40 [100] = Inr col"
    by (simp add: period_cdf_def uniform_period_column col_def del: upt_rec_numeral)
  have mx: "np_max col = Inr (1 / 2)"
    using sorted_Max_last [OF cs cne] cne clast by (simp add: np_max_def)
  have "np_interp 0 col logPv = Inr (logPv ! 0)"
    by (rule np_interp_at_first) (simp_all add: cl logPv_length cn clast)
  then have lp: "np_interp 0 col logPv = Inr (3 / 20)" by (simp add: logPv_nth)
  have nl: "nearest (3 / 20) logPv = [0]"
  proof (rule nearest_first [OF logPv_sorted])
    show "logPv \<noteq> []" using logPv_length by auto
    then show "3 / 20 \<le> hd logPv" by (simp add: hd_conv_nth logPv_nth)
  qed
  have el: "length ecdf = 100" by (simp add: ecdf_def del: upt_rec_numeral)
  have en: "ecdf ! i = real i / 99" if "i < 100" for i
    using that by (simp add: ecdf_def del: upt_rec_numeral)
  have "ecdf \<noteq> []" using el by auto
  then have elast: "last ecdf = 1" by (simp add: last_conv_nth el en)
  have "np_interp 0 ecdf ev = Inr (ev ! 0)"
    by (rule np_interp_at_first) (simp_all add: el ev_length en elast)
  then have e: "select_e uniform_grids [0] [100] 0 = Inr (1 / 10000)"
    by (simp add: select_e_def take_fibres_single uniform_grids_def nume_def
        ecdf_def [symmetric] ev_nth del: upt_rec_numeral)
  have qf: "take_fibres (cumqdist uniform_grids) numq [0] [100] = Inr qcdf"
    by (simp add: take_fibres_single uniform_grids_def numq_def qcdf_def del: upt_rec_numeral)
  have ql: "length qcdf = 91" by (simp add: qcdf_def del: upt_rec_numeral)
  have qn: "qcdf ! i = real i / 90" if "i < 91" for i
    using that by (simp add: qcdf_def del: upt_rec_numeral)
  have "qcdf \<noteq> []" using ql by auto
  then have qlast: "last qcdf = 1" by (simp add: last_conv_nth ql qn)
  have "np_interp 0 qcdf qv = Inr (qv ! 0)"
    by (rule np_interp_at_first) (simp_all add: ql qv_length qn qlast)
  then have q: "select_q 40 qcdf 0 = Inr (1 / 10)"
    by (simp add: select_q_def qv_nth)
  show ?thesis
    unfolding trial_at_def n Let_def p bind_Inr mx
    by (simp add: lp nl e qf q)
qed

section \<open>Properties of idl_tabulate\<close>

lemma builtincoeffs_sum:
  "builtincoeffs N = Some w \<Longrightarrow> length w = N + 1 \<and> sum_list w = real N"
  by (auto simp: builtincoeffs_def split: if_splits)

lemma scipy_newton_cotes_sum:
  assumes "2 \<le> length rn" "hd rn = 0" "last rn = real (length rn - 1)"
    and "length (general rn) = length rn \<and> sum_list (general rn) = real (length rn - 1)"
  shows "\<exists>w. scipy_newton_cotes general rn = Inr w \<and> length w = length rn
             \<and> sum_list w = real (length rn - 1)"
proof (cases "(\<forall>d \<in> set (np_diff rn). d = 1) \<and> builtincoeffs (length rn - 1) \<noteq> None")
  case True
  then obtain w where w: "builtincoeffs (length rn - 1) = Some w" by auto
  from builtincoeffs_sum [OF w] assms(1) True w show ?thesis
    by (simp add: scipy_newton_cotes_def Let_def)
next
  case False
  have "rn \<noteq> []" using assms(1) by auto
  with False assms show ?thesis
    by (auto simp add: scipy_newton_cotes_def Let_def)
qed

lemma dot_const:
  "length w = length f \<Longrightarrow> \<forall>v \<in> set f. v = (k::real) \<Longrightarrow>
   sum_list (map (\<lambda>(u, v). u * v) (zip w f)) = k * sum_list w"
proof (induction w f rule: list_induct2)
  case Nil then show ?case by simp
next
  case (Cons a w b f) then show ?case by (simp add: algebra_simps)
qed

lemma newton_cotes_constant:
  assumes inc: "sorted_wrt (<) x" and len: "length f = length x" and f: "\<forall>v \<in> set f. v = k"
    and ne: "x \<noteq> []"
    and gen: "\<forall>rn. 2 \<le> length rn \<longrightarrow>
        length (general rn) = length rn \<and> sum_list (general rn) = real (length rn - 1)"
  shows "newton_cotes general x f = Inr (k * (last x - hd x))"
proof (cases "length x < 2")
  case True
  with ne have "length x = 1" by (cases x) auto
  then have "last x = hd x" by (cases x) auto
  with True show ?thesis by (simp add: newton_cotes_def)
next
  case False
  then have l2: "2 \<le> length x" by simp
  have hl: "hd x < last x"
  proof -
    have "x ! 0 < x ! (length x - 1)"
      using sorted_wrt_nth_less [OF inc, of 0 "length x - 1"] l2 by simp
    then show ?thesis using ne by (simp add: hd_conv_nth last_conv_nth)
  qed
  define rn where "rn = map (\<lambda>v. real (length x - 1) * (v - hd x) / (last x - hd x)) x"
  have rl: "length rn = length x" by (simp add: rn_def)
  have r0: "hd rn = 0" using ne by (simp add: rn_def hd_map)
  have r1: "last rn = real (length rn - 1)" using ne hl by (simp add: rn_def last_map)
  from scipy_newton_cotes_sum [of rn general] l2 rl r0 r1 gen
  obtain w where w: "scipy_newton_cotes general rn = Inr w" "length w = length x"
      "sum_list w = real (length x - 1)" by auto
  have dot: "np_dot w f = Inr (k * real (length x - 1))"
    using w len f dot_const [of w f k] by (simp add: np_dot_def)
  have "newton_cotes general x f = Inr ((last x - hd x) / real (length x - 1) * (k * real (length x - 1)))"
    using False hl w(1) dot unfolding newton_cotes_def rn_def [symmetric] Let_def
    by (simp add: bind_def)
  also have "(last x - hd x) / real (length x - 1) * (k * real (length x - 1)) = k * (last x - hd x)"
    using l2 by simp
  finally show ?thesis .
qed

lemma idl_loop_constant:
  assumes inc: "sorted_wrt (<) x" and p: "2 \<le> p"
    and gen: "\<forall>rn. 2 \<le> length rn \<longrightarrow>
        length (general rn) = length rn \<and> sum_list (general rn) = real (length rn - 1)"
  shows "m * (p - 1) < length x \<Longrightarrow> M = (length x + (p - 1) - 1) div (p - 1) \<Longrightarrow>
    idl_tabulate_loop general x (map (\<lambda>_. k) x) p (map (\<lambda>j. j * (p - 1)) [m..<M]) ret
      = Inr (ret + k * (last x - x ! (m * (p - 1))))"
proof (induction "length x - m * (p - 1)" arbitrary: m ret rule: less_induct)
  case less
  let ?s = "p - 1"
  let ?idx = "m * ?s"
  have s: "1 \<le> ?s" using p by simp
  have mM: "m < M"
  proof -
    have "m * ?s + ?s \<le> length x + ?s - 1" using less.prems(1) s by linarith
    then have "(m + 1) * ?s \<le> length x + ?s - 1" by (simp add: algebra_simps)
    then have "m + 1 \<le> (length x + ?s - 1) div ?s"
      using s by (simp add: less_eq_div_iff_mult_less_eq)
    then show ?thesis using less.prems(2) by simp
  qed
  then have split: "[m..<M] = m # [Suc m..<M]" by (simp add: upt_conv_Cons)
  let ?w = "slice x ?idx (?idx + p)"
  have wne: "?w \<noteq> []" using less.prems(1) p by (simp add: slice_def)
  have winc: "sorted_wrt (<) ?w"
    unfolding slice_def using inc by (simp add: sorted_wrt_take sorted_wrt_drop)
  have fw: "slice (map (\<lambda>_. k) x) ?idx (?idx + p) = map (\<lambda>_. k) ?w"
    by (simp add: slice_def take_map drop_map)
  have nc: "newton_cotes general ?w (map (\<lambda>_. k) ?w) = Inr (k * (last ?w - hd ?w))"
    using newton_cotes_constant [OF winc _ _ wne gen, of "map (\<lambda>_. k) ?w" k] by simp
  have hdw: "hd ?w = x ! ?idx"
    using less.prems(1) p by (simp add: slice_def hd_drop_conv_nth)
  show ?case
  proof (cases "?idx + ?s < length x")
    case True
    have lastw: "last ?w = x ! (Suc m * ?s)"
    proof -
      have "length ?w = p" using True p by (simp add: slice_def)
      then have "last ?w = ?w ! (p - 1)" using wne by (simp add: last_conv_nth)
      also have "\<dots> = x ! (?idx + ?s)" using True p by (simp add: slice_def)
      finally show ?thesis by (simp add: add.commute)
    qed
    have T': "Suc m * ?s < length x" using True by (simp add: algebra_simps)
    have dec: "length x - Suc m * ?s < length x - m * ?s" using T' s by simp
    from less.hyps [OF dec T' less.prems(2)]
    have IH: "\<And>r. idl_tabulate_loop general x (map (\<lambda>_. k) x) p (map (\<lambda>j. j * ?s) [Suc m..<M]) r
        = Inr (r + k * (last x - x ! (Suc m * ?s)))" by simp
    have "idl_tabulate_loop general x (map (\<lambda>_. k) x) p (map (\<lambda>j. j * ?s) [m..<M]) ret
        = idl_tabulate_loop general x (map (\<lambda>_. k) x) p (map (\<lambda>j. j * ?s) [Suc m..<M])
            (ret + k * (last ?w - hd ?w))"
      by (simp only: split list.map idl_tabulate_loop.simps fw nc bind_def sum.case)
    also have "\<dots> = Inr (ret + k * (last ?w - hd ?w) + k * (last x - x ! (Suc m * ?s)))"
      by (rule IH)
    also have "ret + k * (last ?w - hd ?w) + k * (last x - x ! (Suc m * ?s))
        = ret + k * (last x - x ! ?idx)"
      unfolding hdw lastw by (simp only: algebra_simps)
    finally show ?thesis .
  next
    case False
    have "M \<le> Suc m"
    proof -
      have e: "(m + 2) * ?s = m * ?s + ?s + ?s" by (simp add: distrib_right)
      have "length x + ?s - 1 < (m + 2) * ?s" unfolding e using False s by linarith
      then have "(length x + ?s - 1) div ?s < m + 2"
        using s by (simp add: div_less_iff_less_mult)
      then show ?thesis using less.prems(2) by simp
    qed
    then have emp: "[Suc m..<M] = []" by simp
    have lastw: "last ?w = last x"
    proof -
      have "?w = drop ?idx x" using False p by (simp add: slice_def)
      then show ?thesis using less.prems(1) by (simp add: last_drop)
    qed
    have "idl_tabulate_loop general x (map (\<lambda>_. k) x) p (map (\<lambda>j. j * ?s) [m..<M]) ret
        = Inr (ret + k * (last ?w - hd ?w))"
      by (simp only: split emp list.map idl_tabulate_loop.simps fw nc bind_def sum.case)
    then show ?thesis by (simp only: hdw lastw)
  qed
qed


lemma trapezoid_weights_sum:
  "2 \<le> length rn \<Longrightarrow> length (trapezoid_weights rn) = length rn
     \<and> sum_list (trapezoid_weights rn) = real (length rn - 1)"
proof -
  assume l: "2 \<le> length rn"
  have "sum_list (replicate (length rn - 2) (1::real)) = real (length rn - 2)"
    by (simp add: sum_list_replicate)
  also have "\<dots> = real (length rn) - 2" using l by (simp add: of_nat_diff)
  finally have s: "sum_list (replicate (length rn - 2) (1::real)) = real (length rn) - 2" .
  have r: "real (length rn - 1) = real (length rn) - 1" using l by (simp add: of_nat_diff)
  show ?thesis using l by (simp add: trapezoid_weights_def s r)
qed


section \<open>Properties of the normalisation\<close>





section \<open>Properties of initial_sample\<close>

lemma uniform_slice_sorted: "sorted (map (\<lambda>k. real k / c) [0..<n])" if "0 < c"
  by (rule sorted_wrt_map_mono [OF sorted_upt]) (use that in \<open>simp add: divide_right_mono\<close>)

lemma truncate_q_example:
  "truncate_q (3 / 10) (map (\<lambda>k. real k / 90) [0..<91])
     = Inr (map (\<lambda>i. if qv ! i \<le> 4 / 15 then 0 else (real i / 90 - 5 / 27) / (22 / 27)) [0..<91])"
proof -
  let ?uq = "map (\<lambda>k. real k / 90) [0..<91]"
  have d: "np_divide 0.08 (3 / 10) = Inr (4 / 15)" by (simp add: np_divide_def)
  have le: "\<forall>i \<le> 16. qv ! i \<le> 4 / 15"
  proof (intro allI impI)
    fix i :: nat assume "i \<le> 16"
    then have "real i \<le> 16" by simp
    moreover have "qv ! i = 1 / 10 + real i / 100" using \<open>i \<le> 16\<close> by (simp add: qv_nth)
    ultimately show "qv ! i \<le> 4 / 15" by simp
  qed
  have "np_interp (4 / 15) qv ?uq =
      Inr (if qv ! 16 = 4 / 15 then ?uq ! 16
           else (?uq ! (16 + 1) - ?uq ! 16) / (qv ! (16 + 1) - qv ! 16) * (4 / 15 - qv ! 16)
                + ?uq ! 16)"
    by (rule np_interp_between [OF _ _ le]) (simp_all add: qv_length qv_nth qv_last)
  also have "\<dots> = Inr (5 / 27)" by (simp add: qv_nth)
  finally have c: "np_interp (4 / 15) qv ?uq = Inr (5 / 27)" .
  let ?sh = "map (\<lambda>c. c - 5 / 27) ?uq"
  have ssh: "sorted ?sh"
    by (rule sorted_wrt_map_mono [OF uniform_slice_sorted]) simp_all
  have lsh: "last ?sh = 22 / 27" by (simp add: last_map)
  have "divide_by_max ?sh = Inr (map (\<lambda>v. v / last ?sh) ?sh)"
    by (rule divide_by_max_sorted [OF ssh]) (simp_all only: lsh, simp_all)
  then have m: "divide_by_max ?sh = Inr (map (\<lambda>v. v / (22 / 27)) ?sh)"
    by (simp only: lsh)
  have "truncate_q (3 / 10) ?uq
      = Inr (map (\<lambda>i. if qv ! i \<le> 4 / 15 then 0 else map (\<lambda>v. v / (22 / 27)) ?sh ! i)
               [0..<length (map (\<lambda>v. v / (22 / 27)) ?sh)])"
    by (simp only: truncate_q_def d bind_Inr c m)
  also have "\<dots> = Inr (map (\<lambda>i. if qv ! i \<le> 4 / 15 then 0
                              else (real i / 90 - 5 / 27) / (22 / 27)) [0..<91])"
    by (simp del: upt_rec_numeral)
  finally show ?thesis .
qed


text \<open>
  C4. For a primary of 0.3 solar masses the floor is \<open>q_min = 0.08 / 0.3 = 4/15\<close>,
  between the axis points 0.26 and 0.27. The truncated table is zero up to 0.26 and
  positive from 0.27 on, so a small draw is interpolated between these two axis points
  and the selected mass ratio falls below the floor: with the table of the uniform
  density and the draw 1/1000 it is 0.2622.
\<close>

theorem select_q_below_q_min:
  "select_q (3 / 10) (map (\<lambda>k. real k / 90) [0..<91]) (1 / 1000) = Inr (1311 / 5000)
   \<and> (1311 / 5000 :: real) < 0.08 / (3 / 10)"
proof
  define xp where
    "xp = map (\<lambda>i. if qv ! i \<le> 4 / 15 then 0 else (real i / 90 - 5 / 27) / (22 / 27)) [0..<91]"
  have xn: "xp ! i = (if qv ! i \<le> 4 / 15 then 0 else (real i / 90 - 5 / 27) / (22 / 27))"
    if "i < 91" for i
    using that by (simp add: xp_def del: upt_rec_numeral)
  have xl: "length xp = 91" by (simp add: xp_def del: upt_rec_numeral)
  have q16: "qv ! 16 = 13 / 50" and q17: "qv ! 17 = 27 / 100" and q90: "qv ! 90 = 1"
    by (simp_all add: qv_nth)
  have le: "\<forall>i \<le> 16. xp ! i \<le> 1 / 1000"
  proof (intro allI impI)
    fix i :: nat assume i: "i \<le> 16"
    then have "real i \<le> 16" by simp
    then have "qv ! i \<le> 4 / 15" using i by (simp add: qv_nth)
    then show "xp ! i \<le> 1 / 1000" using i by (simp add: xn)
  qed
  have x17: "xp ! 17 = 1 / 220" by (simp add: xn q17)
  have x16: "xp ! 16 = 0" by (simp add: xn q16)
  have xlast: "last xp = 1"
  proof -
    have "xp \<noteq> []" using xl by auto
    then have "last xp = xp ! 90" by (simp add: last_conv_nth xl)
    then show ?thesis by (simp add: xn q90)
  qed
  have "np_interp (1 / 1000) xp qv =
      Inr (if xp ! 16 = 1 / 1000 then qv ! 16
           else (qv ! (16 + 1) - qv ! 16) / (xp ! (16 + 1) - xp ! 16) * (1 / 1000 - xp ! 16)
                + qv ! 16)"
    by (rule np_interp_between [OF _ _ le]) (simp_all add: xl qv_length xlast x17)
  also have "\<dots> = Inr (1311 / 5000)"
    by (simp add: x16 x17 q16 q17)
  finally have "np_interp (1 / 1000) xp qv = Inr (1311 / 5000)" .
  then show "select_q (3 / 10) (map (\<lambda>k. real k / 90) [0..<91]) (1 / 1000) = Inr (1311 / 5000)"
    by (simp only: select_q_def truncate_q_example bind_Inr xp_def [symmetric]) simp
  show "(1311 / 5000 :: real) < 0.08 / (3 / 10)" by simp
qed







text \<open>
  C8. A binary trial at the top of the mass grid (primary mass 40, all three remaining
  draws 0) on the uniform tables. The period selected by inverse-transform sampling is
  \<open>mylogP = 0.15\<close>, and the secondary mass appended is the mass ratio 0.1 times the
  primary mass. The entry appended to \<open>porb_list\<close> is computed from \<open>logP\<close>, the
  whole period axis of 158 points, not from \<open>mylogP\<close>: it is not the single period
  \<open>10 ** 0.15 * 86400\<close>.
\<close>

theorem trial_appends_period_axis:
  "trial_at uniform_grids 40 \<lparr>rand_M1 = 99 / 100, rand_bin = 0, rand_e = 0, rand_q = 0\<rparr>
       \<lparr>primary_mass_list = [], secondary_mass_list = [], porb_list = [],
        ecc_list = [], total_mass = 0\<rparr>
     = Inr \<lparr>primary_mass_list = [40], secondary_mass_list = [1 / 10 * 40],
            porb_list = [map (\<lambda>p. 10 powr p * sec_in_day) logP],
            ecc_list = [1 / 10000], total_mass = 44\<rparr>
   \<and> np_interp 0 (take_columns (cumPbindist uniform_grids) numlogP [100]) logPv = Inr (3 / 20)
   \<and> length (map (\<lambda>p. 10 powr p * sec_in_day) logP) = 158
   \<and> map (\<lambda>p. 10 powr p * sec_in_day) logP \<noteq> [10 powr (3 / 20) * sec_in_day]"
proof (intro conjI)
  show "trial_at uniform_grids 40 \<lparr>rand_M1 = 99 / 100, rand_bin = 0, rand_e = 0, rand_q = 0\<rparr>
       \<lparr>primary_mass_list = [], secondary_mass_list = [], porb_list = [],
        ecc_list = [], total_mass = 0\<rparr>
     = Inr \<lparr>primary_mass_list = [40], secondary_mass_list = [1 / 10 * 40],
            porb_list = [map (\<lambda>p. 10 powr p * sec_in_day) logP],
            ecc_list = [1 / 10000], total_mass = 44\<rparr>"
    by (simp only: trial_at_top_of_grid) (simp add: record_binary_def)
  have l: "length logP = 158" using logPv_length by (simp add: logPv_def)
  define col where "col = map (\<lambda>j. real j / 157 / 2) [0..<158]"
  have cl: "length col = 158" by (simp add: col_def del: upt_rec_numeral)
  have cn: "col ! i = real i / 157 / 2" if "i < 158" for i
    using that by (simp add: col_def del: upt_rec_numeral)
  have "col \<noteq> []" using cl by auto
  then have clast: "last col = 1 / 2" by (simp add: last_conv_nth cl cn)
  have "np_interp 0 col logPv = Inr (logPv ! 0)"
    by (rule np_interp_at_first) (simp_all add: cl logPv_length cn clast)
  then show "np_interp 0 (take_columns (cumPbindist uniform_grids) numlogP [100]) logPv
      = Inr (3 / 20)"
    by (simp only: uniform_period_column col_def [symmetric]) (simp add: logPv_nth)
  show "length (map (\<lambda>p. 10 powr p * sec_in_day) logP) = 158" using l by simp
  have "length (map (\<lambda>p. 10 powr p * sec_in_day) logP) \<noteq> length [10 powr (3 / 20) * sec_in_day]"
    using l by simp
  then show "map (\<lambda>p. 10 powr p * sec_in_day) logP \<noteq> [10 powr (3 / 20) * sec_in_day]"
    by (metis (no_types))
qed

section \<open>Auxiliary facts about the grid builder\<close>

subsection \<open>Integrals over evenly spaced axes\<close>

lemma builtincoeffs_pos:
  "builtincoeffs N = Some w \<Longrightarrow> \<forall>v \<in> set w. 0 < v"
  by (auto simp: builtincoeffs_def split: if_splits)

lemma builtincoeffs_defined:
  "1 \<le> N \<Longrightarrow> N \<le> 4 \<Longrightarrow> \<exists>w. builtincoeffs N = Some w \<and> length w = N + 1"
proof -
  assume "1 \<le> N" "N \<le> 4"
  then have "N = 1 \<or> N = 2 \<or> N = 3 \<or> N = 4" by linarith
  then show ?thesis by (elim disjE) (simp_all add: builtincoeffs_def)
qed

lemma dot_nonneg:
  fixes w f :: "real list"
  assumes "\<forall>v \<in> set w. 0 \<le> v" "\<forall>v \<in> set f. 0 \<le> v"
  shows "0 \<le> sum_list (map (\<lambda>(u, v). u * v) (zip w f))"
proof (rule sum_list_nonneg)
  fix y assume "y \<in> set (map (\<lambda>(u, v). u * v) (zip w f))"
  then obtain u v where y: "y = u * v" "(u, v) \<in> set (zip w f)" by auto
  have "u \<in> set w" "v \<in> set f" using y(2) by (auto dest: set_zip_leftD set_zip_rightD)
  then show "0 \<le> y" using assms y(1) by simp
qed

lemma dot_pos:
  fixes w f :: "real list"
  assumes "\<forall>v \<in> set w. 0 < v" "\<forall>v \<in> set f. 0 < v" "length w = length f" "w \<noteq> []"
  shows "0 < sum_list (map (\<lambda>(u, v). u * v) (zip w f))"
proof (rule sum_list_pos_real)
  show "\<forall>y \<in> set (map (\<lambda>(u, v). u * v) (zip w f)). 0 < y"
  proof
    fix y assume "y \<in> set (map (\<lambda>(u, v). u * v) (zip w f))"
    then obtain u v where y: "y = u * v" "(u, v) \<in> set (zip w f)" by auto
    have "u \<in> set w" "v \<in> set f" using y(2) by (auto dest: set_zip_leftD set_zip_rightD)
    then show "0 < y" using assms(1,2) y(1) by simp
  qed
  show "map (\<lambda>(u, v). u * v) (zip w f) \<noteq> []" using assms(3,4) by (cases w; cases f) auto
qed

lemma newton_cotes_equal:
  assumes n: "length x = n" "2 \<le> n" "n \<le> 5" and h: "0 < h"
    and eq: "\<forall>k < n. x ! k = x ! 0 + real k * h" and lf: "length f = n"
  shows "\<exists>w. builtincoeffs (n - 1) = Some w \<and> length w = n
      \<and> newton_cotes general x f = Inr (h * sum_list (map (\<lambda>(u, v). u * v) (zip w f)))"
proof -
  have ne: "x \<noteq> []" using n by auto
  have hd: "hd x = x ! 0" using ne by (simp add: hd_conv_nth)
  have "last x = x ! (n - 1)" using ne n(1) by (simp add: last_conv_nth)
  also have "\<dots> = x ! 0 + real (n - 1) * h"
    by (rule eq [rule_format]) (use n(2) in simp)
  finally have last: "last x = x ! 0 + real (n - 1) * h" .
  have d: "last x - hd x = real (n - 1) * h" by (simp add: last hd)
  have dpos: "0 < real (n - 1) * h" using n(2) h by simp
  define rn where "rn = map (\<lambda>v. real (length x - 1) * (v - hd x) / (last x - hd x)) x"
  have rl: "length rn = n" by (simp add: rn_def n(1))
  have rk: "rn ! k = real k" if "k < n" for k
  proof -
    have r: "rn ! k = real (n - 1) * (x ! k - hd x) / (last x - hd x)"
      using that n(1) by (simp add: rn_def)
    have a: "x ! k - hd x = real k * h"
      unfolding hd eq [rule_format, OF that] by simp
    have "rn ! k = real (n - 1) * (real k * h) / (real (n - 1) * h)"
      unfolding r a d ..
    also have "\<dots> = real k"
    proof -
      have "h \<noteq> 0" "real (n - 1) \<noteq> 0" using h n(2) by simp_all
      then show ?thesis by (simp add: field_simps)
    qed
    finally show ?thesis .
  qed
  have diffs: "\<forall>d \<in> set (np_diff rn). d = 1"
  proof
    fix d assume "d \<in> set (np_diff rn)"
    then obtain i where i: "i < n - 1" "d = rn ! (i + 1) - rn ! i"
      by (auto simp: np_diff_def rl)
    then show "d = 1" using rk [of i] rk [of "i + 1"] by simp
  qed
  have "1 \<le> n - 1" "n - 1 \<le> 4" using n(2,3) by linarith+
  from builtincoeffs_defined [OF this] obtain w where w0:
    "builtincoeffs (n - 1) = Some w" "length w = n - 1 + 1" by blast
  have w: "builtincoeffs (n - 1) = Some w" "length w = n" using w0 n(2) by simp_all
  have s: "scipy_newton_cotes general rn = Inr w"
    using diffs w(1) by (simp add: scipy_newton_cotes_def rl Let_def)
  have dot: "np_dot w f = Inr (sum_list (map (\<lambda>(u, v). u * v) (zip w f)))"
    using w(2) lf by (simp add: np_dot_def)
  have "newton_cotes general x f
      = Inr ((last x - hd x) / real (length x - 1) * sum_list (map (\<lambda>(u, v). u * v) (zip w f)))"
    using n(1,2) dpos h unfolding newton_cotes_def rn_def [symmetric] Let_def
    by (simp add: s dot d)
  also have "(last x - hd x) / real (length x - 1) = h" using n(1,2) by (simp add: d)
  finally show ?thesis using w by blast
qed

lemma newton_cotes_equal_nonneg:
  assumes n: "length x = n" "n \<le> 5" and h: "0 < h"
    and eq: "\<forall>k < n. x ! k = x ! 0 + real k * h" and lf: "length f = n"
    and f: "\<forall>v \<in> set f. 0 \<le> v"
  shows "\<exists>v. newton_cotes general x f = Inr v \<and> 0 \<le> v"
proof (cases "2 \<le> n")
  case True
  from newton_cotes_equal [OF n(1) True n(2) h eq lf, of general]
  obtain w where w: "builtincoeffs (n - 1) = Some w"
    "newton_cotes general x f = Inr (h * sum_list (map (\<lambda>(u, v). u * v) (zip w f)))" by blast
  have "\<forall>v \<in> set w. 0 \<le> v" using builtincoeffs_pos [OF w(1)] by (simp add: less_imp_le)
  then have "0 \<le> sum_list (map (\<lambda>(u, v). u * v) (zip w f))" using f by (rule dot_nonneg)
  then show ?thesis using w(2) h by simp
next
  case False
  then show ?thesis using n(1) by (simp add: newton_cotes_def)
qed

lemma newton_cotes_equal_pos:
  assumes n: "length x = n" "2 \<le> n" "n \<le> 5" and h: "0 < h"
    and eq: "\<forall>k < n. x ! k = x ! 0 + real k * h" and lf: "length f = n"
    and f: "\<forall>v \<in> set f. 0 < v"
  shows "\<exists>v. newton_cotes general x f = Inr v \<and> 0 < v"
proof -
  from newton_cotes_equal [OF n h eq lf, of general]
  obtain w where w: "builtincoeffs (n - 1) = Some w" "length w = n"
    "newton_cotes general x f = Inr (h * sum_list (map (\<lambda>(u, v). u * v) (zip w f)))" by blast
  have "w \<noteq> []" using w(2) n(2) by auto
  then have "0 < sum_list (map (\<lambda>(u, v). u * v) (zip w f))"
    using builtincoeffs_pos [OF w(1)] f w(2) lf by (intro dot_pos) simp_all
  then show ?thesis using w(3) h by simp
qed


lemma idl_loop_nonneg:
  assumes "\<forall>idx \<in> set idxs. \<exists>v. newton_cotes general (slice x idx (idx + p))
      (slice f idx (idx + p)) = Inr v \<and> 0 \<le> v"
  shows "\<exists>v. idl_tabulate_loop general x f p idxs ret = Inr (ret + v) \<and> 0 \<le> v"
  using assms
proof (induction idxs arbitrary: ret)
  case Nil
  show ?case by (rule exI [of _ 0]) simp
next
  case (Cons idx idxs)
  from Cons.prems obtain v0 where v0:
    "newton_cotes general (slice x idx (idx + p)) (slice f idx (idx + p)) = Inr v0" "0 \<le> v0"
    by auto
  from Cons.prems have "\<forall>i \<in> set idxs. \<exists>v. newton_cotes general (slice x i (i + p))
      (slice f i (i + p)) = Inr v \<and> 0 \<le> v" by simp
  from Cons.IH [OF this, of "ret + v0"] obtain v where
    v: "idl_tabulate_loop general x f p idxs (ret + v0) = Inr (ret + v0 + v)" "0 \<le> v" by blast
  show ?case
    by (rule exI [of _ "v0 + v"]) (use v0 v in \<open>simp add: add.assoc\<close>)
qed

lemma slice_equal:
  assumes eq: "\<forall>k < length x. x ! k = x ! 0 + real k * h" and idx: "idx < length x"
  shows "length (slice x idx (idx + 5)) = min 5 (length x - idx)"
    and "\<forall>k < length (slice x idx (idx + 5)).
           slice x idx (idx + 5) ! k = slice x idx (idx + 5) ! 0 + real k * h"
proof -
  show l: "length (slice x idx (idx + 5)) = min 5 (length x - idx)"
    by (simp add: slice_def)
  show "\<forall>k < length (slice x idx (idx + 5)).
           slice x idx (idx + 5) ! k = slice x idx (idx + 5) ! 0 + real k * h"
  proof (intro allI impI)
    fix k assume k: "k < length (slice x idx (idx + 5))"
    then have "k < 5 \<and> k < length x - idx" by (simp add: l)
    then have k1: "k < 5" "idx + k < length x" by linarith+
    have a: "slice x idx (idx + 5) ! k = x ! (idx + k)" using k1 by (simp add: slice_def)
    have b: "slice x idx (idx + 5) ! 0 = x ! idx" using idx by (simp add: slice_def)
    have c: "x ! (idx + k) = x ! 0 + real (idx + k) * h" by (rule eq [rule_format, OF k1(2)])
    have d: "x ! idx = x ! 0 + real idx * h" by (rule eq [rule_format, OF idx])
    show "slice x idx (idx + 5) ! k = slice x idx (idx + 5) ! 0 + real k * h"
      unfolding a b c d by (simp add: algebra_simps)
  qed
qed

lemma range_step_bound: "0 < step \<Longrightarrow> idx \<in> set (range_step n step) \<Longrightarrow> idx < n"
proof -
  assume s: "0 < step" and "idx \<in> set (range_step n step)"
  then obtain k where k: "k < (n + step - 1) div step" "idx = k * step"
    by (auto simp: range_step_def)
  have "Suc k \<le> (n + step - 1) div step" using k(1) by simp
  then have "Suc k * step \<le> n + step - 1" using s by (simp add: less_eq_div_iff_mult_less_eq)
  then show "idx < n" using k(2) s by simp
qed

lemma idl_tabulate_equal_nonneg:
  assumes eq: "\<forall>k < length x. x ! k = x ! 0 + real k * h" and h: "0 < h"
    and lf: "length f = length x" and f: "\<forall>v \<in> set f. 0 \<le> v"
  shows "\<exists>v. idl_tabulate general x f 5 = Inr v \<and> 0 \<le> v"
proof -
  have w: "\<forall>idx \<in> set (range_step (length x) 4). \<exists>v. newton_cotes general
      (slice x idx (idx + 5)) (slice f idx (idx + 5)) = Inr v \<and> 0 \<le> v"
  proof
    fix idx assume "idx \<in> set (range_step (length x) 4)"
    then have idx: "idx < length x" using range_step_bound [of 4 idx "length x"] by simp
    note se = slice_equal [OF eq idx]
    show "\<exists>v. newton_cotes general (slice x idx (idx + 5)) (slice f idx (idx + 5)) = Inr v
        \<and> 0 \<le> v"
    proof (rule newton_cotes_equal_nonneg [OF refl _ h se(2)])
      show "length (slice x idx (idx + 5)) \<le> 5" by (simp add: se(1))
      show "length (slice f idx (idx + 5)) = length (slice x idx (idx + 5))"
        by (simp add: slice_def lf)
      show "\<forall>v \<in> set (slice f idx (idx + 5)). 0 \<le> v"
        using f by (auto simp: slice_def dest!: in_set_takeD in_set_dropD)
    qed
  qed
  from idl_loop_nonneg [OF w, where ret = 0] show ?thesis by (simp add: idl_tabulate_def)
qed

lemma idl_tabulate_equal_pos:
  assumes eq: "\<forall>k < length x. x ! k = x ! 0 + real k * h" and h: "0 < h"
    and lf: "length f = length x" and f: "\<forall>v \<in> set f. 0 < v" and l2: "2 \<le> length x"
  shows "\<exists>v. idl_tabulate general x f 5 = Inr v \<and> 0 < v"
proof -
  have idx0: "0 < length x" using l2 by linarith
  have rs: "range_step (length x) 4 = 0 # map (\<lambda>k. k * 4) [1..<(length x + 4 - 1) div 4]"
  proof -
    have "0 < (length x + 4 - 1) div 4" using l2 by simp
    then show ?thesis by (simp add: range_step_def upt_conv_Cons)
  qed
  note se = slice_equal [OF eq idx0]
  have fpos: "\<forall>v \<in> set (slice f 0 (0 + 5)). 0 < v"
    using f by (auto simp: slice_def dest!: in_set_takeD)
  have "\<exists>v. newton_cotes general (slice x 0 (0 + 5)) (slice f 0 (0 + 5)) = Inr v \<and> 0 < v"
  proof (rule newton_cotes_equal_pos [OF refl _ _ h se(2) _ fpos])
    show "2 \<le> length (slice x 0 (0 + 5))" unfolding se(1) using l2 by simp
    show "length (slice x 0 (0 + 5)) \<le> 5" unfolding se(1) by simp
    show "length (slice f 0 (0 + 5)) = length (slice x 0 (0 + 5))" by (simp add: slice_def lf)
  qed
  then obtain v0 where v0:
    "newton_cotes general (slice x 0 (0 + 5)) (slice f 0 (0 + 5)) = Inr v0" "0 < v0" by blast
  have w: "\<forall>idx \<in> set (map (\<lambda>k. k * 4) [1..<(length x + 4 - 1) div 4]). \<exists>v. newton_cotes general
      (slice x idx (idx + 5)) (slice f idx (idx + 5)) = Inr v \<and> 0 \<le> v"
  proof
    fix idx assume "idx \<in> set (map (\<lambda>k. k * 4) [1..<(length x + 4 - 1) div 4])"
    then have "idx \<in> set (range_step (length x) 4)" by (simp add: rs)
    then have idx: "idx < length x" using range_step_bound [of 4 idx "length x"] by simp
    note se = slice_equal [OF eq idx]
    show "\<exists>v. newton_cotes general (slice x idx (idx + 5)) (slice f idx (idx + 5)) = Inr v
        \<and> 0 \<le> v"
    proof (rule newton_cotes_equal_nonneg [OF refl _ h se(2)])
      show "length (slice x idx (idx + 5)) \<le> 5" by (simp add: se(1))
      show "length (slice f idx (idx + 5)) = length (slice x idx (idx + 5))"
        by (simp add: slice_def lf)
      show "\<forall>v \<in> set (slice f idx (idx + 5)). 0 \<le> v"
        using f by (auto simp: slice_def less_imp_le dest!: in_set_takeD in_set_dropD)
    qed
  qed
  from idl_loop_nonneg [OF w, where ret = "0 + v0"] obtain v where
    v: "idl_tabulate_loop general x f 5 (map (\<lambda>k. k * 4) [1..<(length x + 4 - 1) div 4]) (0 + v0)
        = Inr (0 + v0 + v)" "0 \<le> v" by blast
  have "idl_tabulate general x f 5 = Inr (0 + v0 + v)"
    using v0(1) v(1) by (simp add: idl_tabulate_def rs del: upt_rec_numeral)
  then show ?thesis using v0(2) v(2) by (intro exI [of _ "0 + v0 + v"]) simp
qed

subsection \<open>The axes and the quantities that depend on the mass\<close>

lemma idl_loop_pos:
  assumes all: "\<forall>idx \<in> set idxs. \<exists>v. newton_cotes general (slice x idx (idx + p))
      (slice f idx (idx + p)) = Inr v \<and> 0 \<le> v"
    and one: "\<exists>idx \<in> set idxs. \<exists>v. newton_cotes general (slice x idx (idx + p))
      (slice f idx (idx + p)) = Inr v \<and> 0 < v"
  shows "\<exists>v. idl_tabulate_loop general x f p idxs ret = Inr (ret + v) \<and> 0 < v"
  using assms
proof (induction idxs arbitrary: ret)
  case Nil
  then show ?case by simp
next
  case (Cons idx idxs)
  from Cons.prems(1) obtain v0 where v0:
    "newton_cotes general (slice x idx (idx + p)) (slice f idx (idx + p)) = Inr v0" "0 \<le> v0"
    by auto
  from Cons.prems(1) have rest: "\<forall>i \<in> set idxs. \<exists>v. newton_cotes general (slice x i (i + p))
      (slice f i (i + p)) = Inr v \<and> 0 \<le> v" by simp
  show ?case
  proof (cases "0 < v0")
    case True
    from idl_loop_nonneg [OF rest, where ret = "ret + v0"] obtain v where
      v: "idl_tabulate_loop general x f p idxs (ret + v0) = Inr (ret + v0 + v)" "0 \<le> v" by blast
    show ?thesis
      by (rule exI [of _ "v0 + v"]) (use v0 v True in \<open>simp add: add.assoc\<close>)
  next
    case False
    then have "\<exists>i \<in> set idxs. \<exists>v. newton_cotes general (slice x i (i + p))
      (slice f i (i + p)) = Inr v \<and> 0 < v"
      using Cons.prems(2) v0(1) by auto
    from Cons.IH [OF rest this, of "ret + v0"] obtain v where
      v: "idl_tabulate_loop general x f p idxs (ret + v0) = Inr (ret + v0 + v)" "0 < v" by blast
    show ?thesis
      by (rule exI [of _ "v0 + v"]) (use v0 v in \<open>simp add: add.assoc\<close>)
  qed
qed

lemma qv_equal: "\<forall>k < length qv. qv ! k = qv ! 0 + real k * (1 / 100)"
  by (simp add: qv_length qv_nth)

lemma logPv_equal: "\<forall>k < length logPv. logPv ! k = logPv ! 0 + real k * (1 / 20)"
  by (simp add: logPv_length logPv_nth)

lemma qv_pos: "\<forall>q \<in> set qv. 0 < q"
proof
  fix q assume "q \<in> set qv"
  then obtain i where "i < 91" "q = qv ! i" by (auto simp: in_set_conv_nth qv_length)
  then show "0 < q" by (simp add: qv_nth add_pos_nonneg)
qed

lemma ev_pos: "\<forall>e \<in> set ev. 0 < e"
proof
  fix e assume "e \<in> set ev"
  then obtain i where "i < 100" "e = ev ! i" by (auto simp: in_set_conv_nth ev_length)
  then show "0 < e" by (simp add: ev_nth add_nonneg_pos)
qed

lemma filter_upt_from:
  assumes "\<forall>i < n. P i \<longleftrightarrow> k \<le> i" and "k \<le> n"
  shows "filter P [0..<n] = [k..<n]"
proof -
  have "[0..<k + (n - k)] = [0..<k] @ [k..<k + (n - k)]" by (rule upt_add_eq_append) simp
  then have "[0..<n] = [0..<k] @ [k..<n]" using assms(2) by simp
  moreover have "filter P [0..<k] = []" using assms by (auto simp: filter_empty_conv)
  moreover have "filter P [k..<n] = [k..<n]" using assms(1) by (auto simp: filter_id_conv)
  ultimately show ?thesis by simp
qed

lemma indlq_eq: "indlq = [20..<91]"
proof -
  have "\<forall>i < 91. (qv ! i \<ge> 0.3) \<longleftrightarrow> 20 \<le> i"
  proof (intro allI impI)
    fix i :: nat assume i: "i < 91"
    have "(qv ! i \<ge> 0.3) \<longleftrightarrow> 20 \<le> real i" using i by (simp add: qv_nth)
    then show "(qv ! i \<ge> 0.3) \<longleftrightarrow> 20 \<le> i" by simp
  qed
  then show ?thesis unfolding indlq_def np_where_def numq_def by (rule filter_upt_from) simp
qed

lemma indq0p3_eq: "indq0p3 = Inr 20"
proof -
  have "Min (set [20..<91::nat]) = 20" by (rule Min_eqI) auto
  then show ?thesis by (simp add: indq0p3_def indlq_eq)
qed

lemma np_interp_two: "\<exists>y. np_interp x [a, b] [c, d] = Inr y"
  by (simp add: np_interp_def Let_def)

lemma gl_total: "\<exists>y. gl myM1 mylogP = Inr y"
  using np_interp_two by (simp add: gl_def)

lemma gs_total: "\<exists>y. gs myM1 mylogP = Inr y"
  using np_interp_two by (simp add: gs_def)

lemma eta_total: "\<exists>y. eta myM1 mylogP = Inr y"
  using np_interp_two by (simp add: eta_def)


lemma M1v_range: "i < 101 \<Longrightarrow> 0.8 \<le> M1v ! i \<and> M1v ! i \<le> 40"
proof -
  assume i: "i < 101"
  have ne: "M1v \<noteq> []" using M1v_length by auto
  have s: "sorted M1v" using M1v_sorted by (rule sorted_wrt_mono_rel [rotated]) simp
  have "M1v ! 0 \<le> M1v ! i" using s i by (intro sorted_nth_mono) (simp_all add: M1v_length)
  moreover have "M1v ! i \<le> M1v ! 100" using s i by (intro sorted_nth_mono) (simp_all add: M1v_length)
  moreover have "M1v ! 0 = 0.8" using M1v_hd ne by (simp add: hd_conv_nth)
  moreover have "M1v ! 100 = 40" using M1v_last ne by (simp add: last_conv_nth M1v_length)
  ultimately show ?thesis by simp
qed

lemma powr_pow: "0 < a \<Longrightarrow> (a powr c) ^ n = a powr (c * real n)"
proof -
  assume a: "0 < (a::real)"
  then have "0 < a powr c" by simp
  then have "(a powr c) ^ n = (a powr c) powr real n" by (simp only: powr_realpow)
  then show ?thesis by (simp only: powr_powr)
qed

lemma powr_le_by_power:
  fixes a b c :: real
  assumes "0 < a" "0 \<le> b" "a powr (c * real (Suc n)) \<le> b ^ Suc n"
  shows "a powr c \<le> b"
proof (rule power_le_imp_le_base [where n = n])
  show "(a powr c) ^ Suc n \<le> b ^ Suc n" using assms(3) by (simp only: powr_pow [OF assms(1)])
  show "0 \<le> b" by (rule assms(2))
qed

lemma powr_ge_by_power:
  fixes a b c :: real
  assumes "0 < a" "b ^ Suc n \<le> a powr (c * real (Suc n))"
  shows "b \<le> a powr c"
proof (rule power_le_imp_le_base [where n = n])
  show "b ^ Suc n \<le> (a powr c) ^ Suc n" using assms(2) by (simp only: powr_pow [OF assms(1)])
  show "0 \<le> a powr c" by simp
qed

lemma log10_mass_bounds:
  assumes "0.8 \<le> m" "m \<le> 40"
  shows "- 1 / 10 \<le> log 10 m" "log 10 m \<le> 2"
proof -
  have e: "(- 1 / 10) * real (Suc 9) = - 1" by simp
  have "(10::real) powr (- 1 / 10) \<le> 0.8"
    by (rule powr_le_by_power [where n = 9]) (simp_all only: e, simp_all add: powr_minus_divide power_divide)
  then have "10 powr (- 1 / 10) \<le> m" using assms(1) by linarith
  then show "- 1 / 10 \<le> log 10 m" using assms(1) by (simp add: le_log_iff)
  have "m \<le> 10 powr 2" using assms(2) by simp
  then show "log 10 m \<le> 2" using assms(1) by (simp add: log_le_iff)
qed

lemma Ftwin_bounds:
  assumes "0.8 \<le> m" "m \<le> 40"
  shows "0 \<le> Ftwin m p" "Ftwin m p \<le> 1 / 2"
proof -
  note L = log10_mass_bounds [OF assms]
  have F: "0 \<le> FtwinlogPle1 m" "FtwinlogPle1 m \<le> 1 / 2"
    using L by (simp_all add: FtwinlogPle1_def)
  have T: "3 / 2 \<le> logPtwin m" by (simp add: logPtwin_def)
  show "0 \<le> Ftwin m p"
  proof (cases "p \<ge> logPtwin m \<or> p \<le> 1")
    case True then show ?thesis using F by (auto simp: Ftwin_def)
  next
    case False
    then have "0 \<le> 1 - (p - 1) / (logPtwin m - 1)" using T by (simp add: field_simps)
    then show ?thesis using False F by (simp add: Ftwin_def)
  qed
  show "Ftwin m p \<le> 1 / 2"
  proof (cases "p \<ge> logPtwin m \<or> p \<le> 1")
    case True then show ?thesis using F by (auto simp: Ftwin_def)
  next
    case False
    then have a: "0 \<le> 1 - (p - 1) / (logPtwin m - 1)" "1 - (p - 1) / (logPtwin m - 1) \<le> 1"
      using T by (simp_all add: field_simps)
    have "FtwinlogPle1 m * (1 - (p - 1) / (logPtwin m - 1)) \<le> FtwinlogPle1 m * 1"
      using a F by (intro mult_left_mono) simp_all
    then have "FtwinlogPle1 m * (1 - (p - 1) / (logPtwin m - 1)) \<le> 1 / 2" using F(2) by linarith
    then show ?thesis using False by (simp add: Ftwin_def)
  qed
qed

subsection \<open>The mass-ratio density is positive\<close>

lemma windows_nonneg:
  assumes eq: "\<forall>k < length x. x ! k = x ! 0 + real k * h" and h: "0 < h"
    and lf: "length f = length x" and f: "\<forall>v \<in> set f. 0 \<le> v"
  shows "\<forall>idx \<in> set (range_step (length x) 4). \<exists>v. newton_cotes general
      (slice x idx (idx + 5)) (slice f idx (idx + 5)) = Inr v \<and> 0 \<le> v"
proof
  fix idx assume "idx \<in> set (range_step (length x) 4)"
  then have idx: "idx < length x" using range_step_bound [of 4 idx "length x"] by simp
  note se = slice_equal [OF eq idx]
  show "\<exists>v. newton_cotes general (slice x idx (idx + 5)) (slice f idx (idx + 5)) = Inr v
      \<and> 0 \<le> v"
  proof (rule newton_cotes_equal_nonneg [OF refl _ h se(2)])
    show "length (slice x idx (idx + 5)) \<le> 5" by (simp add: se(1))
    show "length (slice f idx (idx + 5)) = length (slice x idx (idx + 5))"
      by (simp add: slice_def lf)
    show "\<forall>v \<in> set (slice f idx (idx + 5)). 0 \<le> v"
      using f by (auto simp: slice_def dest!: in_set_takeD in_set_dropD)
  qed
qed

lemma H_step_length: "length H_step = 91"
  by (simp add: H_step_def qv_length)

lemma H_step_nonneg: "\<forall>v \<in> set H_step. 0 \<le> v"
  by (auto simp: H_step_def)

lemma H_step_top: "88 \<le> k \<Longrightarrow> k < 91 \<Longrightarrow> H_step ! k = 1"
proof -
  assume k: "88 \<le> k" "k < 91"
  then have "88 \<le> real k" by simp
  then have "qv ! k \<ge> 0.95" using k by (simp add: qv_nth)
  then show ?thesis using k by (simp add: H_step_def qv_length)
qed

lemma H_twin_props:
  "\<exists>H. H_twin general = Inr H \<and> length H = 91 \<and> (\<forall>v \<in> set H. 0 \<le> v)"
proof -
  have lf: "length H_step = length qv" by (simp add: H_step_length qv_length)
  note all = windows_nonneg [OF qv_equal _ lf H_step_nonneg, of general, simplified]
  have idx: "(88::nat) < length qv" by (simp add: qv_length)
  note se = slice_equal [OF qv_equal idx]
  have top: "\<forall>v \<in> set (slice H_step 88 (88 + 5)). 0 < v"
  proof
    fix v assume "v \<in> set (slice H_step 88 (88 + 5))"
    then obtain k where k: "k < length (slice H_step 88 (88 + 5))"
      "v = slice H_step 88 (88 + 5) ! k" by (auto simp: in_set_conv_nth)
    then have k3: "k < 3" by (simp add: slice_def H_step_length)
    then have "v = H_step ! (88 + k)" using k(2) by (simp add: slice_def H_step_length)
    then show "0 < v" using k3 by (simp add: H_step_top)
  qed
  have "\<exists>v. newton_cotes general (slice qv 88 (88 + 5)) (slice H_step 88 (88 + 5)) = Inr v
      \<and> 0 < v"
  proof (rule newton_cotes_equal_pos [OF refl _ _ _ se(2) _ top])
    show "2 \<le> length (slice qv 88 (88 + 5))" unfolding se(1) by (simp add: qv_length)
    show "length (slice qv 88 (88 + 5)) \<le> 5" unfolding se(1) by simp
    show "(0::real) < 1 / 100" by simp
    show "length (slice H_step 88 (88 + 5)) = length (slice qv 88 (88 + 5))"
      by (simp add: slice_def lf)
  qed
  moreover have "88 \<in> set (range_step (length qv) 4)"
  proof -
    have "(88::nat) = 22 * 4" by simp
    moreover have "(22::nat) \<in> set [0..<(91 + 4 - 1) div 4]" by simp
    ultimately show ?thesis unfolding range_step_def qv_length by (metis (no_types, lifting) image_eqI set_map)
  qed
  ultimately have one: "\<exists>idx \<in> set (range_step (length qv) 4). \<exists>v. newton_cotes general
      (slice qv idx (idx + 5)) (slice H_step idx (idx + 5)) = Inr v \<and> 0 < v" by blast
  from idl_loop_pos [OF all one, where ret = 0] obtain v where
    v: "idl_tabulate general qv H_step 5 = Inr v" "0 < v"
    by (auto simp: idl_tabulate_def)
  have "H_twin general = Inr (map (\<lambda>u. u / v) H_step)"
    using v by (simp add: H_twin_def divide_array_def)
  moreover have "\<forall>u \<in> set (map (\<lambda>u. u / v) H_step). 0 \<le> u"
    using H_step_nonneg v(2) by simp
  ultimately show ?thesis by (simp add: H_step_length)
qed


lemma qv_large_equal:
  "length (map (\<lambda>i. qv ! i) indlq) = 71"
  "\<forall>k < length (map (\<lambda>i. qv ! i) indlq).
     map (\<lambda>i. qv ! i) indlq ! k = map (\<lambda>i. qv ! i) indlq ! 0 + real k * (1 / 100)"
proof -
  show l: "length (map (\<lambda>i. qv ! i) indlq) = 71" by (simp add: indlq_eq del: upt_rec_numeral)
  show "\<forall>k < length (map (\<lambda>i. qv ! i) indlq).
     map (\<lambda>i. qv ! i) indlq ! k = map (\<lambda>i. qv ! i) indlq ! 0 + real k * (1 / 100)"
  proof (intro allI impI)
    fix k assume "k < length (map (\<lambda>i. qv ! i) indlq)"
    then have k: "k < 71" by (simp only: l)
    have a: "map (\<lambda>i. qv ! i) indlq ! k = qv ! (20 + k)"
      using k by (simp add: indlq_eq del: upt_rec_numeral)
    have b: "map (\<lambda>i. qv ! i) indlq ! 0 = qv ! 20"
      by (simp add: indlq_eq del: upt_rec_numeral)
    show "map (\<lambda>i. qv ! i) indlq ! k = map (\<lambda>i. qv ! i) indlq ! 0 + real k * (1 / 100)"
      unfolding a b using k by (simp add: qv_nth field_simps)
  qed
qed

lemma fq_props:
  assumes m: "0.8 \<le> m" "m \<le> 40" and H: "length H = 91" "\<forall>v \<in> set H. 0 \<le> v"
  shows "\<exists>f. fq general H m p = Inr f \<and> length f = 91 \<and> (\<forall>v \<in> set f. 0 < v)"
proof -
  obtain gl' where gl: "gl m p = Inr gl'" using gl_total by blast
  obtain gs' where gs: "gs m p = Inr gs'" using gs_total by blast
  define fq0 where "fq0 = map (\<lambda>q. q powr gl') qv"
  have l0: "length fq0 = 91" by (simp add: fq0_def qv_length)
  have p0: "\<forall>v \<in> set fq0. 0 < v" using qv_pos by (auto simp: fq0_def)
  have pl: "\<forall>v \<in> set (map (\<lambda>i. fq0 ! i) indlq). 0 < v"
  proof
    fix v assume "v \<in> set (map (\<lambda>i. fq0 ! i) indlq)"
    then obtain i where "i \<in> set [20..<91]" "v = fq0 ! i"
      by (auto simp: indlq_eq simp del: upt_rec_numeral)
    then have "i < length fq0" "v = fq0 ! i" by (simp_all add: l0 del: upt_rec_numeral)
    then show "0 < v" using p0 by simp
  qed
  have "\<exists>v. idl_tabulate general (map (\<lambda>i. qv ! i) indlq) (map (\<lambda>i. fq0 ! i) indlq) 5 = Inr v
      \<and> 0 < v"
    by (rule idl_tabulate_equal_pos [OF qv_large_equal(2) _ _ pl])
       (simp_all add: qv_large_equal(1), simp add: indlq_eq del: upt_rec_numeral)
  then obtain norm where norm:
    "idl_tabulate general (map (\<lambda>i. qv ! i) indlq) (map (\<lambda>i. fq0 ! i) indlq) 5 = Inr norm"
    "0 < norm" by blast
  define fq1 where "fq1 = map (\<lambda>v. v / norm) fq0"
  have d: "divide_array fq0 norm = Inr fq1" using norm(2) by (simp add: divide_array_def fq1_def)
  have l1: "length fq1 = 91" by (simp add: fq1_def l0)
  have p1: "0 < fq1 ! i" if "i < 91" for i
    using that p0 l0 norm(2) by (simp add: fq1_def)
  define Ft where "Ft = Ftwin m p"
  have Ft: "0 \<le> Ft" "Ft \<le> 1 / 2" using Ftwin_bounds [OF m] by (simp_all add: Ft_def)
  define fq2 where "fq2 = map (\<lambda>(f, h). f * (1.0 - Ft) + h * Ft) (zip fq1 H)"
  have l2: "length fq2 = 91" by (simp add: fq2_def l1 H(1))
  have p2: "0 < fq2 ! i" if "i < 91" for i
  proof -
    have e: "fq2 ! i = fq1 ! i * (1 - Ft) + H ! i * Ft"
      using that by (simp add: fq2_def l1 H(1))
    have "0 < fq1 ! i * (1 - Ft)" using p1 [OF that] Ft by simp
    moreover have "0 \<le> H ! i * Ft" using H that Ft by simp
    ultimately show ?thesis unfolding e by linarith
  qed
  define f where
    "f = map (\<lambda>i. if qv ! i < 0.3 then fq2 ! 20 * (qv ! i / 0.3) powr gs' else fq2 ! i)
           [0..<length fq2]"
  have r: "fq general H m p = Inr f"
    unfolding fq_def gl gs bind_Inr Let_def fq0_def [symmetric] norm(1) d
      Ft_def [symmetric] fq2_def [symmetric] indq0p3_eq f_def ..
  have lf: "length f = 91" by (simp add: f_def l2)
  have "\<forall>v \<in> set f. 0 < v"
  proof
    fix v assume "v \<in> set f"
    then obtain i where i: "i < 91" "v = f ! i" by (auto simp: in_set_conv_nth lf)
    have q: "0 < qv ! i" using qv_pos i(1) by (simp add: qv_length)
    have "f ! i = (if qv ! i < 0.3 then fq2 ! 20 * (qv ! i / 0.3) powr gs' else fq2 ! i)"
      using i(1) by (simp add: f_def l2 del: upt_rec_numeral)
    then show "0 < v" using i p2 [of i] p2 [of 20] q by simp
  qed
  then show ?thesis using r lf by blast
qed

subsection \<open>Normalised tables, sequences of results, assignments, bounds on powers\<close>

lemma sum_list_pos_member:
  fixes xs :: "real list"
  assumes "\<forall>v \<in> set xs. 0 \<le> v" "\<exists>v \<in> set xs. 0 < v"
  shows "0 < sum_list xs"
proof -
  have "0 \<le> sum_list xs" using assms(1) by (simp add: sum_list_nonneg)
  moreover have "sum_list xs \<noteq> 0"
  proof
    assume "sum_list xs = 0"
    then have "\<forall>v \<in> set xs. v = 0" using assms(1) by (simp add: sum_list_nonneg_eq_0_iff)
    then show False using assms(2) by auto
  qed
  ultimately show ?thesis by simp
qed

lemma normalise_cdf_props:
  assumes nn: "\<forall>v \<in> set xs. 0 \<le> v" and pos: "\<exists>v \<in> set xs. 0 < v"
  shows "\<exists>c. normalise_cdf (x # xs) = Inr c \<and> length c = length (x # xs) \<and> sorted c
     \<and> hd c = 0 \<and> last c = 1"
proof -
  have S: "0 < sum_list xs" by (rule sum_list_pos_member [OF nn pos])
  let ?c = "map (\<lambda>v. v / sum_list xs) (0 # cumsum xs)"
  have "normalise_cdf (x # xs) = Inr ?c" by (rule normalise_cdf_nonneg [OF nn S])
  moreover have "length ?c = length (x # xs)" by (simp add: cumsum_def)
  moreover have "sorted ?c" by (rule normalised_sorted [OF nn S])
  moreover have "hd ?c = 0" by simp
  moreover have "last ?c = 1"
  proof -
    have "last ?c = last (0 # cumsum xs) / sum_list xs"
      by (simp only: last_map list.distinct not_False_eq_True)
    also have "\<dots> = 1" using S by (simp only: cum_offset_last) simp
    finally show ?thesis .
  qed
  ultimately show ?thesis by blast
qed

lemma sequence_all:
  assumes "\<forall>m \<in> set ms. \<exists>y. m = Inr y \<and> P y"
  shows "\<exists>ys. sequence ms = Inr ys \<and> length ys = length ms \<and> (\<forall>y \<in> set ys. P y)"
  using assms
proof (induction ms)
  case Nil then show ?case by simp
next
  case (Cons m ms)
  then obtain y where y: "m = Inr y" "P y" by auto
  from Cons obtain ys where ys: "sequence ms = Inr ys" "length ys = length ms"
    "\<forall>y \<in> set ys. P y" by auto
  show ?case by (rule exI [of _ "y # ys"]) (use y ys in simp)
qed

lemma sequence_nth:
  "sequence (map f xs) = Inr ys \<Longrightarrow>
     length ys = length xs \<and> (\<forall>k < length xs. f (xs ! k) = Inr (ys ! k))"
proof (induction xs arbitrary: ys)
  case Nil then show ?case by simp
next
  case (Cons x xs)
  from Cons.prems obtain y ys' where y: "f x = Inr y" "sequence (map f xs) = Inr ys'"
    "ys = y # ys'" by (auto simp: bind_eq_Inr)
  from Cons.IH [OF y(2)] have ih: "length ys' = length xs"
    "\<forall>k < length xs. f (xs ! k) = Inr (ys' ! k)" by simp_all
  show ?case
  proof (intro conjI allI impI)
    show "length ys = length (x # xs)" using y(3) ih(1) by simp
    fix k assume "k < length (x # xs)"
    then show "f ((x # xs) ! k) = Inr (ys ! k)" using y(1,3) ih(2) by (cases k) simp_all
  qed
qed

lemma fold_update_length:
  "length (fold (\<lambda>(i, v) ys. ys[i := v]) ps xs) = length xs"
  by (induction ps arbitrary: xs) (simp_all add: case_prod_beta)

lemma fold_update_all:
  "\<forall>v \<in> set xs. P v \<Longrightarrow> \<forall>p \<in> set ps. P (snd p) \<Longrightarrow>
     \<forall>v \<in> set (fold (\<lambda>(i, v) ys. ys[i := v]) ps xs). P v"
proof (induction ps arbitrary: xs)
  case Nil then show ?case by simp
next
  case (Cons p ps)
  have "\<forall>v \<in> set (xs[fst p := snd p]). P v"
  proof
    fix v assume "v \<in> set (xs[fst p := snd p])"
    then have "v \<in> insert (snd p) (set xs)" using set_update_subset_insert by fastforce
    then show "P v" using Cons.prems by auto
  qed
  then show ?case using Cons by (simp add: case_prod_beta)
qed

lemma fold_update_other:
  "i \<notin> fst ` set ps \<Longrightarrow> fold (\<lambda>(i, v) ys. ys[i := v]) ps xs ! i = xs ! i"
  by (induction ps arbitrary: xs) (auto simp: case_prod_beta)

lemma assign_props:
  assumes "\<forall>v \<in> set xs. P v" "\<forall>v \<in> set vals. P v"
  shows "length (assign xs ind vals) = length xs"
    and "\<forall>v \<in> set (assign xs ind vals). P v"
    and "i \<notin> set ind \<Longrightarrow> assign xs ind vals ! i = xs ! i"
proof -
  show "length (assign xs ind vals) = length xs" by (simp add: assign_def fold_update_length)
  have "\<forall>p \<in> set (zip ind vals). P (snd p)"
    using assms(2) by (auto dest: set_zip_rightD)
  then show "\<forall>v \<in> set (assign xs ind vals). P v"
    unfolding assign_def by (rule fold_update_all [OF assms(1)])
  assume "i \<notin> set ind"
  then have "i \<notin> fst ` set (zip ind vals)" by (auto dest: set_zip_leftD)
  then show "assign xs ind vals ! i = xs ! i" unfolding assign_def by (rule fold_update_other)
qed

lemma ten_powr_low: "p \<le> 3 / 10 \<Longrightarrow> 10 powr p \<le> (2::real)"
proof -
  assume p: "p \<le> 3 / 10"
  have e: "(3 / 10) * real (Suc 9) = 3" by simp
  have "(10::real) powr (3 / 10) \<le> 2"
    by (rule powr_le_by_power [where n = 9]) (simp_all only: e, simp_all)
  moreover have "(10::real) powr p \<le> 10 powr (3 / 10)" using p by (intro powr_mono) simp_all
  ultimately show ?thesis by linarith
qed

lemma ten_powr_high: "7 / 20 \<le> p \<Longrightarrow> (11 / 5 :: real) \<le> 10 powr p"
proof -
  assume p: "7 / 20 \<le> p"
  have e: "(7 / 20) * real (Suc 19) = 7" by simp
  have "(11 / 5 :: real) \<le> 10 powr (7 / 20)"
    by (rule powr_ge_by_power [where n = 19]) (simp_all only: e, simp_all add: power_divide)
  moreover have "(10::real) powr (7 / 20) \<le> 10 powr p" using p by (intro powr_mono) simp_all
  ultimately show ?thesis by linarith
qed

lemma e_max_bounds:
  assumes "7 / 20 \<le> p"
  shows "1 / 20 \<le> e_max p" "e_max p < 1"
proof -
  define y where "y = 10 powr p / (2::real)"
  have y: "11 / 10 \<le> y" using ten_powr_high [OF assms] by (simp add: y_def)
  then have y0: "0 < y" by linarith
  have e: "(2 / 3) * real (Suc 2) = 2" by simp
  have "y ^ 2 \<ge> (11 / 10) ^ 2" using y by (intro power_mono) simp_all
  then have y2: "(20 / 19 :: real) ^ Suc 2 \<le> y powr 2"
    using y0 by (simp add: powr_numeral power_divide)
  have r: "20 / 19 \<le> y powr (2 / 3)"
    by (rule powr_ge_by_power [OF y0, where n = 2]) (simp only: e y2)
  have m: "y powr (- (2 / 3)) = 1 / y powr (2 / 3)" by (rule powr_minus_divide)
  have yp: "0 < y powr (2 / 3)" using y0 by simp
  have "1 / y powr (2 / 3) \<le> 1 / (20 / 19)" using r yp by (intro divide_left_mono) simp_all
  then have le: "y powr (- (2 / 3)) \<le> 19 / 20" unfolding m by simp
  have em: "e_max p = 1 - y powr (- (2 / 3))" by (simp add: e_max_def y_def)
  show "1 / 20 \<le> e_max p" unfolding em using le by linarith
  have "0 < y powr (- (2 / 3))" using y0 by simp
  then show "e_max p < 1" unfolding em by linarith
qed

subsection \<open>The eccentricity density is non-negative and not zero\<close>

lemma taper_index:
  assumes e: "1 / 20 \<le> e" "e < 1"
  shows "\<exists>k < 100. 0.8 * e \<le> ev ! k \<and> ev ! k \<le> 1.0 * e"
proof (cases "9901 / 10000 \<le> e")
  case True
  have "ev ! 99 = 9901 / 10000" by (simp add: ev_nth)
  then show ?thesis using True e by (intro exI [of _ 99]) simp
next
  case False
  define r where "r = (e - 1 / 10000) * 100"
  define k where "k = nat \<lfloor>r\<rfloor>"
  have r0: "0 \<le> r" using e by (simp add: r_def)
  have r99: "r < 99" using False by (simp add: r_def)
  have kr: "real k \<le> r" using r0 by (simp add: k_def)
  have rk: "r < real k + 1" using r0 unfolding k_def by linarith
  have k99: "k < 99"
  proof -
    have "real k < 99" using kr r99 by linarith
    then show ?thesis by simp
  qed
  then have k100: "k < 100" by simp
  have ek: "ev ! k = real k / 100 + 1 / 10000" using k100 by (rule ev_nth)
  have er: "e = r / 100 + 1 / 10000" unfolding r_def by (simp add: field_simps)
  have "ev ! k \<le> e" unfolding ek er using kr by simp
  moreover have "0.8 * e \<le> ev ! k"
  proof -
    have "e - 1 / 100 < ev ! k" unfolding ek er using rk by simp
    then show ?thesis using e(1) by simp
  qed
  ultimately show ?thesis using k100 by (intro exI [of _ k]) simp
qed

lemma grid_period_above_two:
  assumes j: "j < 158" and a: "\<not> 10 powr (logPv ! j) \<le> (2::real)"
  shows "7 / 20 \<le> logPv ! j"
proof -
  have p: "logPv ! j = 3 / 20 + real j / 20" using j by (rule logPv_nth)
  have "\<not> j \<le> 3"
  proof
    assume "j \<le> 3"
    then have "real j \<le> 3" by simp
    then have "logPv ! j \<le> 3 / 10" unfolding p by simp
    then show False using ten_powr_low a by blast
  qed
  then have "4 \<le> real j" by simp
  then show ?thesis unfolding p by simp
qed


lemma fe_props:
  assumes j: "j < 158"
  shows "\<exists>f. fe m (logPv ! j) = Inr f \<and> length f = 100 \<and> (\<forall>v \<in> set f. 0 \<le> v) \<and> 0 < f ! 1"
proof -
  define p where "p = logPv ! j"
  obtain eta' where eta: "eta m p = Inr eta'" using eta_total by blast
  have ev1: "ev ! 1 = 101 / 10000" and ev0: "ev ! 0 = 1 / 10000" by (simp_all add: ev_nth)
  have ev1': "ev ! Suc 0 = 101 / 10000" using ev1 by simp
  show ?thesis
  proof (cases "10 powr p \<le> (2::real)")
    case True
    let ?f = "map (\<lambda>e. e powr (- 3.2)) ev"
    have "fe m p = Inr ?f" using True by (simp add: fe_def eta)
    moreover have "length ?f = 100" by (simp add: ev_length)
    moreover have "\<forall>v \<in> set ?f. 0 \<le> v" by auto
    moreover have "0 < ?f ! 1" by (simp add: ev_length ev1')
    ultimately show ?thesis unfolding p_def by blast
  next
    case False
    then have "7 / 20 \<le> p" unfolding p_def by (rule grid_period_above_two [OF j])
    note E = e_max_bounds [OF this]
    define e where "e = e_max p"
    have e: "1 / 20 \<le> e" "e < 1" using E by (simp_all add: e_def)
    define fe0 where "fe0 = map (\<lambda>x. x powr eta') ev"
    define fe1 where "fe1 = map (\<lambda>i. if ev ! i \<ge> e then 0 else fe0 ! i) [0..<length fe0]"
    define ind where "ind = np_where (\<lambda>i. ev ! i \<ge> 0.8 * e \<and> ev ! i \<le> 1.0 * e) (length ev)"
    have l0: "length fe0 = 100" by (simp add: fe0_def ev_length)
    have l1: "length fe1 = 100" by (simp add: fe1_def l0)
    have n0: "\<forall>v \<in> set fe0. 0 \<le> v" by (auto simp: fe0_def)
    have n1: "\<forall>v \<in> set fe1. 0 \<le> v"
    proof
      fix v assume "v \<in> set fe1"
      then obtain i where "i < 100" "v = (if ev ! i \<ge> e then 0 else fe0 ! i)"
        by (auto simp: fe1_def l0)
      then show "0 \<le> v" using n0 l0 by simp
    qed
    have mem: "i \<in> set ind \<longleftrightarrow> i < 100 \<and> ev ! i \<ge> 0.8 * e \<and> ev ! i \<le> 1.0 * e" for i
      by (auto simp: ind_def np_where_def ev_length)
    from taper_index [OF e] obtain k where "k \<in> set ind" using mem by blast
    then have ine: "ind \<noteq> []" by auto
    define M where "M = Min (set ind)"
    have Min: "M \<in> set ind" unfolding M_def using ine by (intro Min_in) simp_all
    have "0 \<notin> set ind" using e(1) by (simp add: mem ev0)
    moreover have i1: "1 \<notin> set ind" using e(1) by (simp add: mem ev1')
    ultimately have M2: "2 \<le> M" using Min by (metis One_nat_def Suc_1 Suc_leI le_neq_implies_less less_one not_le)
    have M100: "M < 100" using Min mem by simp
    have nm: "np_min (map real ind) = Inr (Min (set (map real ind)))"
      using ine by (simp add: np_min_def)
    have pi: "py_index fe1 (int M - 1) = Inr (fe1 ! (M - 1))"
    proof -
      have "nat (int M - 1) = M - 1" by simp
      then show ?thesis using M2 M100 by (simp add: py_index_def Let_def l1)
    qed
    define c where "c = fe1 ! (M - 1)"
    have c0: "0 \<le> c" unfolding c_def using n1 M100 l1 by simp
    have "\<forall>y \<in> set (map (\<lambda>i. np_interp (ev ! i) [0.8 * e, 1.0 * e] [c, 0]) ind).
        \<exists>v. y = Inr v \<and> 0 \<le> v"
    proof
      fix y assume "y \<in> set (map (\<lambda>i. np_interp (ev ! i) [0.8 * e, 1.0 * e] [c, 0]) ind)"
      then obtain i where y: "y = np_interp (ev ! i) [0.8 * e, 1.0 * e] [c, 0]" by auto
      obtain v where v: "np_interp (ev ! i) [0.8 * e, 1.0 * e] [c, 0] = Inr v"
        using np_interp_two by blast
      have "0 \<le> v" by (rule np_interp_lower [OF _ v]) (use c0 in simp)
      then show "\<exists>v. y = Inr v \<and> 0 \<le> v" using y v by simp
    qed
    from sequence_all [OF this] obtain vals where vals:
      "sequence (map (\<lambda>i. np_interp (ev ! i) [0.8 * e, 1.0 * e] [c, 0]) ind) = Inr vals"
      "\<forall>v \<in> set vals. 0 \<le> v" by blast
    note A = assign_props [where xs = fe1 and P = "\<lambda>v. 0 \<le> v" and vals = vals and ind = ind,
        OF n1 vals(2)]
    have r: "fe m p = Inr (assign fe1 ind vals)"
      unfolding fe_def eta bind_Inr Let_def e_def [symmetric] fe0_def [symmetric]
        fe1_def [symmetric] ind_def [symmetric]
      using False
      by (simp only: if_False nm bind_Inr M_def [symmetric] pi c_def [symmetric] vals(1))
    have "assign fe1 ind vals ! 1 = fe1 ! 1" by (rule A(3) [OF i1])
    also have "\<dots> = fe0 ! 1" using e(1) by (simp add: fe1_def l0 ev1')
    also have "\<dots> = ev ! 1 powr eta'" by (simp add: fe0_def ev_length)
    finally have "0 < assign fe1 ind vals ! 1" by (simp add: ev1')
    then show ?thesis unfolding p_def [symmetric] using r A(1) A(2) l1 by auto
  qed
qed

subsection \<open>The companion frequency is non-negative\<close>

lemma flogPle1_pos: "0 < flogPle1 m"
proof -
  define L where "L = log 10 m"
  have "0 \<le> (L + 2 / 7) * (L + 2 / 7)" by simp
  then have "0 \<le> L * L + 4 / 7 * L + 4 / 49" by (simp add: algebra_simps)
  then have "0 < 1 / 50 + 1 / 25 * L + 7 / 100 * (L * L)" by linarith
  moreover have "flogPle1 m = 1 / 50 + 1 / 25 * L + 7 / 100 * (L * L)"
    by (simp add: flogPle1_def L_def power2_eq_square)
  ultimately show ?thesis by simp
qed

lemma flogPeq5p5_pos: "0 < flogPeq5p5 m"
proof -
  define L where "L = log 10 m"
  have "0 \<le> (L - 5 / 8) * (L - 5 / 8)" by simp
  then have "0 \<le> L * L - 5 / 4 * L + 25 / 64" by (simp add: algebra_simps)
  then have "0 < 39 / 500 - 1 / 20 * L + 1 / 25 * (L * L)" by linarith
  moreover have "flogPeq5p5 m = 39 / 500 - 1 / 20 * L + 1 / 25 * (L * L)"
    by (simp add: flogPeq5p5_def L_def power2_eq_square)
  ultimately show ?thesis by simp
qed

lemma flogPeq2p7_pos:
  assumes "0.8 \<le> m" "m \<le> 40"
  shows "0 < flogPeq2p7 m - alpha * DlogP"
proof -
  define L where "L = log 10 m"
  have L: "- 1 / 10 \<le> L" using log10_mass_bounds(1) [OF assms] by (simp add: L_def)
  have "0 \<le> L * L" by simp
  then have "0 < 39 / 1000 + 7 / 100 * L + 1 / 100 * (L * L) - 63 / 5000" using L by linarith
  moreover have "flogPeq2p7 m - alpha * DlogP
      = 39 / 1000 + 7 / 100 * L + 1 / 100 * (L * L) - 63 / 5000"
    by (simp add: flogPeq2p7_def alpha_def DlogP_def L_def power2_eq_square)
  ultimately show ?thesis by simp
qed

lemma convex_nonneg:
  fixes a b t :: real
  assumes "0 \<le> a" "0 \<le> b" "0 \<le> t" "t \<le> 1"
  shows "0 \<le> a + t * (b - a)"
proof -
  have "0 \<le> (1 - t) * a + t * b" using assms by (intro add_nonneg_nonneg mult_nonneg_nonneg) simp_all
  moreover have "(1 - t) * a + t * b = a + t * (b - a)" by (simp add: algebra_simps)
  ultimately show ?thesis by simp
qed

lemma flogP_nonneg:
  assumes m: "0.8 \<le> m" "m \<le> 40"
  shows "0 \<le> flogP m p"
proof -
  note A = flogPle1_pos [of m] and B = flogPeq2p7_pos [OF m] and C = flogPeq5p5_pos [of m]
  have ad: "alpha * DlogP = 63 / 5000" by (simp add: alpha_def DlogP_def)
  consider "p \<le> 1" | "1 < p" "p \<le> 2" | "2 < p" "p \<le> 17 / 5" | "17 / 5 < p" "p \<le> 11 / 2"
    | "11 / 2 < p" by linarith
  then show ?thesis
  proof cases
    case 1
    then show ?thesis using A by (simp add: flogP_def)
  next
    case 2
    have "0 \<le> flogPle1 m + (p - 1) * ((flogPeq2p7 m - alpha * DlogP) - flogPle1 m)"
      using A B 2 by (intro convex_nonneg) simp_all
    moreover have "flogP m p
        = flogPle1 m + (p - 1) * ((flogPeq2p7 m - alpha * DlogP) - flogPle1 m)"
      using 2 by (simp add: flogP_def DlogP_def)
    ultimately show ?thesis by simp
  next
    case 3
    have v: "flogP m p = flogPeq2p7 m + 9 / 500 * (p - 27 / 10)"
      using 3 by (simp add: flogP_def DlogP_def alpha_def)
    have w: "9 / 500 * (p - 27 / 10) = 9 / 500 * p - 243 / 5000"
      by (simp add: right_diff_distrib)
    show ?thesis unfolding v w using B 3 unfolding ad by linarith
  next
    case 4
    have "0 \<le> (flogPeq2p7 m + alpha * DlogP)
        + ((p - 17 / 5) / (21 / 10)) * (flogPeq5p5 m - (flogPeq2p7 m + alpha * DlogP))"
      using B C 4 ad by (intro convex_nonneg) simp_all
    moreover have "flogP m p = (flogPeq2p7 m + alpha * DlogP)
        + ((p - 17 / 5) / (21 / 10)) * (flogPeq5p5 m - (flogPeq2p7 m + alpha * DlogP))"
      using 4 by (simp add: flogP_def DlogP_def)
    ultimately show ?thesis by simp
  next
    case 5
    then show ?thesis using C by (simp add: flogP_def DlogP_def)
  qed
qed

lemma flogP_pos_short: "p \<le> 1 \<Longrightarrow> 0 < flogP m p"
  using flogPle1_pos by (simp add: flogP_def)

lemma probbin_nonneg: "0 \<le> probbin m p"
  by (simp add: probbin_def Let_def)

lemma probbin_short: "p \<le> 3 / 2 \<Longrightarrow> probbin m p = 1"
  by (simp add: probbin_def Let_def)

subsection \<open>One cell and one period column\<close>

lemma build_cell_props:
  assumes m: "0.8 \<le> m" "m \<le> 40" and H: "length H = 91" "\<forall>v \<in> set H. 0 \<le> v"
    and j: "j < 158"
  shows "\<exists>c. build_cell general H m (logPv ! j) = Inr c
     \<and> length (cumfq c) = 91 \<and> sorted (cumfq c) \<and> hd (cumfq c) = 0 \<and> last (cumfq c) = 1
     \<and> length (cumfe c) = 100 \<and> sorted (cumfe c) \<and> hd (cumfe c) = 0 \<and> last (cumfe c) = 1
     \<and> 0 \<le> flogP_sq c * probbin_ji c
     \<and> (logPv ! j \<le> 1 \<longrightarrow> 0 < flogP_sq c * probbin_ji c)"
proof -
  define p where "p = logPv ! j"
  from fq_props [OF m H, of general p] obtain f where f:
    "fq general H m p = Inr f" "length f = 91" "\<forall>v \<in> set f. 0 < v" by blast
  obtain x xs where fx: "f = x # xs" using f(2) by (cases f) auto
  have xs: "\<forall>v \<in> set xs. 0 \<le> v" "\<exists>v \<in> set xs. 0 < v"
  proof -
    show "\<forall>v \<in> set xs. 0 \<le> v" using f(3) fx by (auto simp: less_imp_le)
    have "xs \<noteq> []" using f(2) fx by auto
    then obtain v where "v \<in> set xs" by (cases xs) auto
    then show "\<exists>v \<in> set xs. 0 < v" using f(3) fx by auto
  qed
  from normalise_cdf_props [OF xs, of x] obtain cq where cq:
    "normalise_cdf f = Inr cq" "length cq = 91" "sorted cq" "hd cq = 0" "last cq = 1"
    using f(2) fx by auto
  have "\<exists>v. idl_tabulate general qv f 5 = Inr v \<and> 0 < v"
    by (rule idl_tabulate_equal_pos [OF qv_equal _ _ f(3)]) (simp_all add: f(2) qv_length)
  then obtain qf where qf: "idl_tabulate general qv f 5 = Inr qf" "0 < qf" by blast
  from fe_props [OF j, of m] obtain g where g:
    "fe m p = Inr g" "length g = 100" "\<forall>v \<in> set g. 0 \<le> v" "0 < g ! 1"
    unfolding p_def by blast
  obtain y ys where gy: "g = y # ys" using g(2) by (cases g) auto
  have ys: "\<forall>v \<in> set ys. 0 \<le> v" "\<exists>v \<in> set ys. 0 < v"
  proof -
    show "\<forall>v \<in> set ys. 0 \<le> v" using g(3) gy by auto
    have "ys \<noteq> []" using g(2) gy by auto
    then have "ys ! 0 \<in> set ys" by simp
    moreover have "0 < ys ! 0" using g(4) gy by simp
    ultimately show "\<exists>v \<in> set ys. 0 < v" by blast
  qed
  from normalise_cdf_props [OF ys, of y] obtain ce where ce:
    "normalise_cdf g = Inr ce" "length ce = 100" "sorted ce" "hd ce = 0" "last ce = 1"
    using g(2) gy by auto
  let ?c = "\<lparr>cumfq = cq, cumfe = ce, flogP_sq = flogP m p * qf, probbin_ji = probbin m p\<rparr>"
  have r: "build_cell general H m p = Inr ?c"
    by (simp add: build_cell_def f(1) cq(1) qf(1) g(1) ce(1))
  have nn: "0 \<le> flogP m p * qf * probbin m p"
    using flogP_nonneg [OF m, of p] qf(2) probbin_nonneg [of m p] by simp
  have ps: "0 < flogP m p * qf * probbin m p" if "p \<le> 1"
    using flogP_pos_short [OF that, of m] qf(2) probbin_short [of p m] that by simp
  show ?thesis
    unfolding p_def [symmetric]
    by (rule exI [of _ ?c]) (use r cq ce nn ps in simp)
qed

lemma mycumPbindist_props:
  assumes l: "length w = 158" and nn: "\<forall>v \<in> set w. 0 \<le> v" and p1: "0 < w ! 1"
  shows "\<exists>col B. idl_tabulate general logPv w 5 = Inr B \<and> 0 \<le> B
     \<and> mycumPbindist general w = Inr col \<and> length col = 158 \<and> sorted col
     \<and> hd col = 0 \<and> last col = B"
proof -
  obtain x xs where wx: "w = x # xs" using l by (cases w) auto
  have xs: "\<forall>v \<in> set xs. 0 \<le> v" "\<exists>v \<in> set xs. 0 < v"
  proof -
    show "\<forall>v \<in> set xs. 0 \<le> v" using nn wx by auto
    have "xs \<noteq> []" using l wx by auto
    then have "xs ! 0 \<in> set xs" by simp
    moreover have "0 < xs ! 0" using p1 wx by simp
    ultimately show "\<exists>v \<in> set xs. 0 < v" by blast
  qed
  have S: "0 < sum_list xs" by (rule sum_list_pos_member [OF xs])
  define c where "c = 0 # cumsum xs"
  have co: "cum_offset w = Inr c" by (simp add: wx cum_offset_Cons c_def)
  have cs: "sorted c" unfolding c_def by (rule cum_offset_sorted [OF xs(1)])
  have cl: "last c = sum_list xs" unfolding c_def by (rule cum_offset_last)
  have cne: "c \<noteq> []" by (simp add: c_def)
  have dm: "divide_by_max c = Inr (map (\<lambda>v. v / last c) c)"
    by (rule divide_by_max_sorted [OF cs cne]) (simp add: cl S)
  define sc where "sc = map (\<lambda>v. v / last c) c"
  have scs: "sorted sc" unfolding sc_def
    by (rule sorted_wrt_map_mono [OF cs]) (use S in \<open>simp add: cl divide_right_mono\<close>)
  have scl: "last sc = 1" using cne S by (simp add: sc_def last_map cl)
  have sch: "hd sc = 0" by (simp add: sc_def c_def)
  have scn: "length sc = 158" using l wx by (simp add: sc_def c_def cumsum_def)
  have "\<exists>v. idl_tabulate general logPv w 5 = Inr v \<and> 0 \<le> v"
    by (rule idl_tabulate_equal_nonneg [OF logPv_equal _ _ nn]) (simp_all add: l logPv_length)
  then obtain B where B: "idl_tabulate general logPv w 5 = Inr B" "0 \<le> B" by blast
  define col where "col = map (\<lambda>v. v * B) sc"
  have r: "mycumPbindist general w = Inr col"
    by (simp add: mycumPbindist_def co dm B(1) col_def sc_def)
  have "sorted col" unfolding col_def
    by (rule sorted_wrt_map_mono [OF scs]) (use B(2) in \<open>simp add: mult_right_mono\<close>)
  moreover have "last col = B"
  proof -
    have "sc \<noteq> []" using scn by auto
    then show ?thesis by (simp add: col_def last_map scl)
  qed
  moreover have "hd col = 0"
  proof -
    have "sc \<noteq> []" using scn by auto
    then show ?thesis by (simp add: col_def hd_map sch)
  qed
  moreover have "length col = 158" by (simp add: col_def scn)
  ultimately show ?thesis using B r by blast
qed

subsection \<open>One pass of the outer loop\<close>

lemma build_column_props:
  assumes m: "0.8 \<le> m" "m \<le> 40" and H: "length H = 91" "\<forall>v \<in> set H. 0 \<le> v"
  shows "\<exists>col B. build_column general H m = Inr col \<and> length (cells col) = 158
     \<and> (\<forall>j < 158. length (cumfq (cells col ! j)) = 91 \<and> sorted (cumfq (cells col ! j))
            \<and> hd (cumfq (cells col ! j)) = 0 \<and> last (cumfq (cells col ! j)) = 1
            \<and> length (cumfe (cells col ! j)) = 100 \<and> sorted (cumfe (cells col ! j))
            \<and> hd (cumfe (cells col ! j)) = 0 \<and> last (cumfe (cells col ! j)) = 1)
     \<and> idl_tabulate general logPv (map (\<lambda>c. flogP_sq c * probbin_ji c) (cells col)) 5 = Inr B
     \<and> 0 \<le> B \<and> length (cumPbin col) = 158 \<and> sorted (cumPbin col)
     \<and> hd (cumPbin col) = 0 \<and> last (cumPbin col) = B"
proof -
  let ?f = "\<lambda>j. build_cell general H m (logPv ! j)"
  have "\<forall>y \<in> set (map ?f [0..<numlogP]). \<exists>c. y = Inr c \<and> True"
  proof
    fix y assume "y \<in> set (map ?f [0..<numlogP])"
    then obtain j where j: "j < 158" "y = ?f j" by (auto simp: numlogP_def)
    from build_cell_props [OF m H j(1), of general] show "\<exists>c. y = Inr c \<and> True"
      using j(2) by auto
  qed
  from sequence_all [OF this] obtain cs where cs:
    "sequence (map ?f [0..<numlogP]) = Inr cs" "length cs = 158"
    by (auto simp: numlogP_def)
  from sequence_nth [OF cs(1)] have nth: "\<forall>k < 158. ?f k = Inr (cs ! k)"
    by (simp add: numlogP_def del: upt_rec_numeral)
  have cell: "length (cumfq (cs ! j)) = 91 \<and> sorted (cumfq (cs ! j))
       \<and> hd (cumfq (cs ! j)) = 0 \<and> last (cumfq (cs ! j)) = 1
       \<and> length (cumfe (cs ! j)) = 100 \<and> sorted (cumfe (cs ! j))
       \<and> hd (cumfe (cs ! j)) = 0 \<and> last (cumfe (cs ! j)) = 1
       \<and> 0 \<le> flogP_sq (cs ! j) * probbin_ji (cs ! j)
       \<and> (logPv ! j \<le> 1 \<longrightarrow> 0 < flogP_sq (cs ! j) * probbin_ji (cs ! j))"
    if "j < 158" for j
  proof -
    from build_cell_props [OF m H that, of general] obtain c where c:
      "?f j = Inr c" and p: "length (cumfq c) = 91 \<and> sorted (cumfq c)
       \<and> hd (cumfq c) = 0 \<and> last (cumfq c) = 1
       \<and> length (cumfe c) = 100 \<and> sorted (cumfe c)
       \<and> hd (cumfe c) = 0 \<and> last (cumfe c) = 1
       \<and> 0 \<le> flogP_sq c * probbin_ji c
       \<and> (logPv ! j \<le> 1 \<longrightarrow> 0 < flogP_sq c * probbin_ji c)" by blast
    have "c = cs ! j" using c nth that by simp
    then show ?thesis using p by simp
  qed
  define w where "w = map (\<lambda>c. flogP_sq c * probbin_ji c) cs"
  have wl: "length w = 158" by (simp add: w_def cs(2))
  have wn: "\<forall>v \<in> set w. 0 \<le> v"
  proof
    fix v assume "v \<in> set w"
    then obtain j where "j < 158" "v = flogP_sq (cs ! j) * probbin_ji (cs ! j)"
      by (auto simp: w_def in_set_conv_nth cs(2))
    then show "0 \<le> v" using cell [of j] by simp
  qed
  have w1: "0 < w ! 1"
  proof -
    have "logPv ! 1 \<le> 1" by (simp add: logPv_nth)
    then have "0 < flogP_sq (cs ! 1) * probbin_ji (cs ! 1)" using cell [of 1] by simp
    then show ?thesis by (simp add: w_def cs(2))
  qed
  from mycumPbindist_props [OF wl wn w1, of general] obtain col B where cb:
    "idl_tabulate general logPv w 5 = Inr B" "0 \<le> B"
    "mycumPbindist general w = Inr col" "length col = 158" "sorted col"
    "hd col = 0" "last col = B" by blast
  have r: "build_column general H m = Inr \<lparr>cells = cs, cumPbin = col\<rparr>"
    by (simp add: build_column_def cs(1) w_def [symmetric] cb(3))
  show ?thesis
    apply (rule exI [of _ "\<lparr>cells = cs, cumPbin = col\<rparr>"], rule exI [of _ B])
    using r cs(2) cell cb by (simp add: w_def)
qed

lemma sorted_last_bounds:
  assumes "length xs = Suc n" "last xs = b"
  shows "xs ! n = b" "map (\<lambda>k. xs ! k) [0..<Suc n] = xs"
proof -
  have ne: "xs \<noteq> []" using assms(1) by auto
  show "xs ! n = b" using assms ne by (simp add: last_conv_nth)
  show "map (\<lambda>k. xs ! k) [0..<Suc n] = xs" using map_nth [of xs] assms(1) by simp
qed


section \<open>Properties of populate_pdfs\<close>

text \<open>
  C1. The builder returns its three tables (no step of it fails), and in them every
  slice along the sampling axis is non-decreasing: the mass-ratio and the eccentricity
  slice of every cell \<open>(i, j)\<close> end in a value between 0 and 1, and the period column
  of every mass \<open>i\<close> ends in a value between 0 and the binary fraction of that mass,
  which is the integral \<open>idl_tabulate(logPv, flogP_sq[:,i] * probbin[:,i])\<close>. This holds
  whatever scipy returns for unevenly spaced nodes, since every axis is evenly spaced.
\<close>

theorem populate_pdfs_cdfs:
  "\<exists>T H cols. populate_pdfs general = Inr T \<and> H_twin general = Inr H
     \<and> (\<forall>i < numM1. build_column general H (M1v ! i) = Inr (cols ! i))
     \<and> (\<forall>i < numM1. \<forall>j < numlogP.
           sorted (map (\<lambda>k. cumqdist T k j i) [0..<numq])
         \<and> 0 \<le> cumqdist T (numq - 1) j i \<and> cumqdist T (numq - 1) j i \<le> 1
         \<and> sorted (map (\<lambda>k. cumedist T k j i) [0..<nume])
         \<and> 0 \<le> cumedist T (nume - 1) j i \<and> cumedist T (nume - 1) j i \<le> 1)
     \<and> (\<forall>i < numM1. \<exists>binfrac.
           idl_tabulate general logPv
             (map (\<lambda>c. flogP_sq c * probbin_ji c) (cells (cols ! i))) 5 = Inr binfrac
         \<and> sorted (map (\<lambda>j. cumPbindist T j i) [0..<numlogP])
         \<and> 0 \<le> cumPbindist T (numlogP - 1) i \<and> cumPbindist T (numlogP - 1) i \<le> binfrac)"
proof -
  obtain H where H: "H_twin general = Inr H" "length H = 91" "\<forall>v \<in> set H. 0 \<le> v"
    using H_twin_props by blast
  let ?f = "\<lambda>i. build_column general H (M1v ! i)"
  have "\<forall>y \<in> set (map ?f [0..<numM1]). \<exists>c. y = Inr c \<and> True"
  proof
    fix y assume "y \<in> set (map ?f [0..<numM1])"
    then obtain i where i: "i < 101" "y = ?f i" by (auto simp: numM1_def)
    from M1v_range [OF i(1)] have "0.8 \<le> M1v ! i" "M1v ! i \<le> 40" by simp_all
    from build_column_props [OF this H(2,3), of general] show "\<exists>c. y = Inr c \<and> True"
      using i(2) by auto
  qed
  from sequence_all [OF this] obtain cols where cols:
    "sequence (map ?f [0..<numM1]) = Inr cols" "length cols = 101"
    by (auto simp: numM1_def)
  from sequence_nth [OF cols(1)] have nth: "\<forall>i < 101. ?f i = Inr (cols ! i)"
    by (simp add: numM1_def del: upt_rec_numeral)
  define T where "T = \<lparr>cumqdist = (\<lambda>k j i. cumfq (cells (cols ! i) ! j) ! k),
          cumedist = (\<lambda>k j i. cumfe (cells (cols ! i) ! j) ! k),
          cumPbindist = (\<lambda>j i. cumPbin (cols ! i) ! j)\<rparr>"
  have r: "populate_pdfs general = Inr T"
    by (simp add: populate_pdfs_def H(1) cols(1) T_def)
  have col: "\<exists>B. (\<forall>j < 158. length (cumfq (cells (cols ! i) ! j)) = 91
            \<and> sorted (cumfq (cells (cols ! i) ! j))
            \<and> last (cumfq (cells (cols ! i) ! j)) = 1
            \<and> length (cumfe (cells (cols ! i) ! j)) = 100
            \<and> sorted (cumfe (cells (cols ! i) ! j))
            \<and> last (cumfe (cells (cols ! i) ! j)) = 1)
     \<and> idl_tabulate general logPv (map (\<lambda>c. flogP_sq c * probbin_ji c) (cells (cols ! i))) 5
          = Inr B
     \<and> 0 \<le> B \<and> length (cumPbin (cols ! i)) = 158 \<and> sorted (cumPbin (cols ! i))
     \<and> last (cumPbin (cols ! i)) = B"
    if "i < 101" for i
  proof -
    from M1v_range [OF that] have "0.8 \<le> M1v ! i" "M1v ! i \<le> 40" by simp_all
    from build_column_props [OF this H(2,3), of general] obtain c B where
      c: "?f i = Inr c" and p: "(\<forall>j < 158. length (cumfq (cells c ! j)) = 91
            \<and> sorted (cumfq (cells c ! j)) \<and> hd (cumfq (cells c ! j)) = 0
            \<and> last (cumfq (cells c ! j)) = 1
            \<and> length (cumfe (cells c ! j)) = 100 \<and> sorted (cumfe (cells c ! j))
            \<and> hd (cumfe (cells c ! j)) = 0 \<and> last (cumfe (cells c ! j)) = 1)"
        "idl_tabulate general logPv (map (\<lambda>c. flogP_sq c * probbin_ji c) (cells c)) 5 = Inr B"
        "0 \<le> B" "length (cumPbin c) = 158" "sorted (cumPbin c)" "last (cumPbin c) = B"
      by blast
    have "c = cols ! i" using c nth that by simp
    then show ?thesis using p by blast
  qed
  have cellq: "sorted (map (\<lambda>k. cumqdist T k j i) [0..<numq])
         \<and> 0 \<le> cumqdist T (numq - 1) j i \<and> cumqdist T (numq - 1) j i \<le> 1
         \<and> sorted (map (\<lambda>k. cumedist T k j i) [0..<nume])
         \<and> 0 \<le> cumedist T (nume - 1) j i \<and> cumedist T (nume - 1) j i \<le> 1"
    if "i < numM1" "j < numlogP" for i j
  proof -
    have i: "i < 101" and j: "j < 158" using that by (simp_all add: numM1_def numlogP_def)
    from col [OF i] j have q: "length (cumfq (cells (cols ! i) ! j)) = Suc 90"
      "sorted (cumfq (cells (cols ! i) ! j))" "last (cumfq (cells (cols ! i) ! j)) = 1"
      and e: "length (cumfe (cells (cols ! i) ! j)) = Suc 99"
      "sorted (cumfe (cells (cols ! i) ! j))" "last (cumfe (cells (cols ! i) ! j)) = 1"
      by auto
    note Q = sorted_last_bounds [OF q(1) q(3)] and E = sorted_last_bounds [OF e(1) e(3)]
    have nq: "numq = Suc 90" "numq - 1 = 90" and ne: "nume = Suc 99" "nume - 1 = 99"
      by (simp_all add: numq_def nume_def)
    show ?thesis
      unfolding T_def cdf_grids.simps nq ne Q E using q(2) e(2) Q(1) E(1) by simp
  qed
  have colp: "\<exists>binfrac.
           idl_tabulate general logPv
             (map (\<lambda>c. flogP_sq c * probbin_ji c) (cells (cols ! i))) 5 = Inr binfrac
         \<and> sorted (map (\<lambda>j. cumPbindist T j i) [0..<numlogP])
         \<and> 0 \<le> cumPbindist T (numlogP - 1) i \<and> cumPbindist T (numlogP - 1) i \<le> binfrac"
    if "i < numM1" for i
  proof -
    have i: "i < 101" using that by (simp add: numM1_def)
    from col [OF i] obtain B where B:
      "idl_tabulate general logPv (map (\<lambda>c. flogP_sq c * probbin_ji c) (cells (cols ! i))) 5
          = Inr B" "0 \<le> B" "length (cumPbin (cols ! i)) = Suc 157"
      "sorted (cumPbin (cols ! i))" "last (cumPbin (cols ! i)) = B" by auto
    note P = sorted_last_bounds [OF B(3) B(5)]
    have np: "numlogP = Suc 157" "numlogP - 1 = 157" by (simp_all add: numlogP_def)
    show ?thesis
      apply (rule exI [of _ B])
      unfolding T_def cdf_grids.simps np P using B(1,2,4) P(1) by simp
  qed
  have n: "\<forall>i < numM1. ?f i = Inr (cols ! i)" using nth by (simp add: numM1_def)
  show ?thesis
    apply (rule exI [of _ T], rule exI [of _ H], rule exI [of _ cols])
    using r H(1) n cellq colp by blast
qed

theorem populate_pdfs_cdfs_witness:
  "\<exists>T. populate_pdfs trapezoid_weights = Inr T
     \<and> sorted (map (\<lambda>k. cumqdist T k 0 0) [0..<numq])
     \<and> 0 \<le> cumqdist T (numq - 1) 0 0 \<and> cumqdist T (numq - 1) 0 0 \<le> 1
     \<and> sorted (map (\<lambda>k. cumedist T k 157 100) [0..<nume])
     \<and> 0 \<le> cumedist T (nume - 1) 157 100 \<and> cumedist T (nume - 1) 157 100 \<le> 1
     \<and> sorted (map (\<lambda>j. cumPbindist T j 50) [0..<numlogP])
     \<and> 0 \<le> cumPbindist T (numlogP - 1) 50"
proof -
  from populate_pdfs_cdfs [of trapezoid_weights] obtain T H cols where all:
    "populate_pdfs trapezoid_weights = Inr T \<and> H_twin trapezoid_weights = Inr H
     \<and> (\<forall>i < numM1. build_column trapezoid_weights H (M1v ! i) = Inr (cols ! i))
     \<and> (\<forall>i < numM1. \<forall>j < numlogP.
           sorted (map (\<lambda>k. cumqdist T k j i) [0..<numq])
         \<and> 0 \<le> cumqdist T (numq - 1) j i \<and> cumqdist T (numq - 1) j i \<le> 1
         \<and> sorted (map (\<lambda>k. cumedist T k j i) [0..<nume])
         \<and> 0 \<le> cumedist T (nume - 1) j i \<and> cumedist T (nume - 1) j i \<le> 1)
     \<and> (\<forall>i < numM1. \<exists>binfrac.
           idl_tabulate trapezoid_weights logPv
             (map (\<lambda>c. flogP_sq c * probbin_ji c) (cells (cols ! i))) 5 = Inr binfrac
         \<and> sorted (map (\<lambda>j. cumPbindist T j i) [0..<numlogP])
         \<and> 0 \<le> cumPbindist T (numlogP - 1) i \<and> cumPbindist T (numlogP - 1) i \<le> binfrac)"
    by (elim exE)
  note r = all [THEN conjunct1]
  note c = all [THEN conjunct2, THEN conjunct2, THEN conjunct2, THEN conjunct1]
  note p = all [THEN conjunct2, THEN conjunct2, THEN conjunct2, THEN conjunct2]
  have i0: "0 < numM1" "100 < numM1" "50 < numM1" and j0: "0 < numlogP" "157 < numlogP"
    by (simp_all add: numM1_def numlogP_def)
  from c i0(1) j0(1) have a: "sorted (map (\<lambda>k. cumqdist T k 0 0) [0..<numq])
     \<and> 0 \<le> cumqdist T (numq - 1) 0 0 \<and> cumqdist T (numq - 1) 0 0 \<le> 1" by blast
  from c i0(2) j0(2) have b: "sorted (map (\<lambda>k. cumedist T k 157 100) [0..<nume])
     \<and> 0 \<le> cumedist T (nume - 1) 157 100 \<and> cumedist T (nume - 1) 157 100 \<le> 1" by blast
  from p i0(3) have d: "sorted (map (\<lambda>j. cumPbindist T j 50) [0..<numlogP])
     \<and> 0 \<le> cumPbindist T (numlogP - 1) 50" by blast
  from r a b d show ?thesis by blast
qed

end
